theory Spec2Isabelle
  imports Main
begin

section \<open>The bot process: delivery queue and connection supervisor\<close>

text \<open>
  The model follows \<open>bot/index.js\<close>. JavaScript numbers that only ever hold
  small integers (counters, millisecond timestamps and delays) are \<open>int\<close>.
  The process is single-threaded: a handler runs without interruption up to its next
  \<open>await\<close>, so every stretch of code between two suspension points is one
  atomic transition, and the transport, the clock, the random source and the file
  system (whether a write of a data file succeeds or throws) are parameters of the
  transitions.
\<close>

subsection \<open>Data\<close>

text \<open>
  A queued message object. \<open>seq\<close> is the identity of the JavaScript object (the
  rank of its allocation by \<open>add\<close> or \<open>load\<close>); it is not a property of the
  object, and no transition reads it except to find the object a reference points to.
\<close>

record envelope =
  seq :: nat
  msg_id :: string
  to :: string
  type :: string
  content :: string
  addedAt :: int
  attempts :: int

text \<open>What a producer hands to \<open>messageQueue.add\<close>.\<close>

record outgoing =
  o_to :: string
  o_type :: string
  o_content :: string

text \<open>
  Where the single \<open>process()\<close> activation is suspended: nowhere, at
  \<open>await this.send(msg)\<close> (holding its local \<open>msg\<close>), or at
  \<open>await delay(2000)\<close> in the \<open>catch\<close> block.
\<close>

datatype drain_pc = Idle | AwaitSend envelope | AwaitDelay

record bot =
  isBotReady :: bool
  reconnectAttempts :: int
  queue :: "envelope list"
  saved :: "envelope list"
  processing :: bool
  drain :: drain_pc
  timers :: nat
  notifying :: "(string \<times> string) list"
  restarts :: "int list"
  nextseq :: nat
  sends :: "envelope list"
  delivered :: "envelope list"
  dropped :: "envelope list"

text \<open>
  \<open>saved\<close> is the \<open>messages\<close> array of the queue file; \<open>timers\<close> counts the pending
  \<open>setTimeout(() => this.process(), 1000)\<close> callbacks; \<open>notifying\<close> holds, for each
  \<open>'open'\<close> handler suspended at \<open>await sendMessage(settings.adminNumber, ...)\<close>,
  the recipient and the text; \<open>restarts\<close> lists the delays of the
  \<open>setTimeout(startBot, ...)\<close> calls made so far. \<open>sends\<close> is the trace of the
  calls \<open>this.send(msg)\<close> made by \<open>process()\<close>, \<open>delivered\<close> and \<open>dropped\<close> are
  the messages of the log lines "Message sent" and "Message failed after 3 attempts".
\<close>

definition MAX_RECONNECT_ATTEMPTS :: int where
  "MAX_RECONNECT_ATTEMPTS = 10"

definition RECONNECT_INTERVAL :: int where
  "RECONNECT_INTERVAL = 5000"

subsection \<open>Exceptions\<close>

text \<open>
  A synchronous stretch of code either returns or lets an exception escape; in both
  cases the state it leaves behind matters, so both carry it.
\<close>

datatype 'a outcome = Returned 'a | Threw 'a

fun state_of :: "'a outcome \<Rightarrow> 'a" where
  "state_of (Returned s) = s"
| "state_of (Threw s) = s"

subsection \<open>MessageQueue\<close>

text \<open>
  The constructor and \<open>load\<close>: \<open>stored\<close> is the \<open>messages\<close> array of the queue
  file when the process starts, and the loaded objects are allocated in file order
  (\<open>DB.get\<close> catches its own errors).
\<close>

definition load :: "envelope list \<Rightarrow> envelope list" where
  "load stored = map (\<lambda>(i, m). m\<lparr>seq := i\<rparr>) (enumerate 0 stored)"

definition boot :: "envelope list \<Rightarrow> bot" where
  "boot stored =
     \<lparr>isBotReady = False, reconnectAttempts = 0, queue = load stored,
      saved = load stored, processing = False, drain = Idle, timers = 0,
      notifying = [], restarts = [], nextseq = length stored, sends = [],
      delivered = [], dropped = []\<rparr>"

text \<open>
  \<open>save()\<close> is \<open>DB.set\<close>, that is \<open>fs.writeJsonSync\<close> with nothing around it:
  when the write fails (\<open>writable\<close> false) the exception escapes and the file keeps
  its content.
\<close>

definition save :: "bool \<Rightarrow> bot \<Rightarrow> bot outcome" where
  "save writable s = (if writable then Returned (s\<lparr>saved := queue s\<rparr>) else Threw s)"

text \<open>
  \<open>process()\<close> from its entry to \<open>await this.send(msg)\<close>: the guard, the flag,
  \<open>msg = this.queue[0]\<close> and the call of \<open>this.send(msg)\<close>.
\<close>

definition process_start :: "bot \<Rightarrow> bot" where
  "process_start s =
     (if processing s \<or> queue s = [] \<or> \<not> isBotReady s then s
      else s\<lparr>processing := True, drain := AwaitSend (hd (queue s)),
             sends := sends s @ [hd (queue s)]\<rparr>)"

text \<open>
  \<open>add\<close>: the \<open>push\<close> of the new object, then \<open>save()\<close> and \<open>process()\<close>. When
  \<open>save()\<close> throws, the message is already in the array and \<open>process()\<close> is not
  called.
\<close>

definition queue_push :: "outgoing \<Rightarrow> string \<Rightarrow> int \<Rightarrow> bot \<Rightarrow> bot" where
  "queue_push message uuid now s =
     s\<lparr>queue := queue s @
          [\<lparr>seq = nextseq s, msg_id = uuid, to = o_to message, type = o_type message,
            content = o_content message, addedAt = now, attempts = 0\<rparr>],
       nextseq := Suc (nextseq s)\<rparr>"

definition add :: "outgoing \<Rightarrow> string \<Rightarrow> int \<Rightarrow> bool \<Rightarrow> bot \<Rightarrow> bot outcome" where
  "add message uuid now writable s =
     (case save writable (queue_push message uuid now s) of
        Returned s1 \<Rightarrow> Returned (process_start s1)
      | Threw s1 \<Rightarrow> Threw s1)"

text \<open>The last three lines of \<open>process()\<close>.\<close>

definition process_finish :: "bot \<Rightarrow> bot" where
  "process_finish s =
     (let s1 = s\<lparr>processing := False, drain := Idle\<rparr>
      in if queue s1 \<noteq> [] then s1\<lparr>timers := Suc (timers s1)\<rparr> else s1)"

text \<open>
  \<open>msg.attempts++\<close> writes through the reference \<open>msg\<close>: the object with that
  identity changes wherever the queue still holds it.
\<close>

definition write_back :: "envelope \<Rightarrow> envelope list \<Rightarrow> envelope list" where
  "write_back m q = map (\<lambda>x. if seq x = seq m then m else x) q"

text \<open>
  The \<open>catch\<close> block of \<open>process()\<close> up to \<open>await delay(2000)\<close>. It runs for any
  exception of the \<open>try\<close> block. When its own \<open>save()\<close> throws, the exception leaves
  \<open>process()\<close>: the activation is over, \<open>processing\<close> stays set and no timer is set.
  \<open>shift()\<close> on an empty array leaves it empty, as \<open>tl\<close> does.
\<close>

definition catch_block :: "envelope \<Rightarrow> bool \<Rightarrow> bot \<Rightarrow> bot outcome" where
  "catch_block msg writable s =
     (let msg' = msg\<lparr>attempts := attempts msg + 1\<rparr>;
          s1 = s\<lparr>queue := write_back msg' (queue s)\<rparr>;
          s2 = (if attempts msg' \<ge> 3
                then s1\<lparr>queue := tl (queue s1), dropped := dropped s1 @ [msg']\<rparr>
                else s1)
      in case save writable s2 of
           Returned s3 \<Rightarrow> Returned (s3\<lparr>drain := AwaitDelay\<rparr>)
         | Threw s3 \<Rightarrow> Threw (s3\<lparr>drain := Idle\<rparr>))"

text \<open>
  \<open>process()\<close> resumed after \<open>await this.send(msg)\<close>. \<open>ok\<close>: the send resolved;
  \<open>w1\<close> and \<open>w2\<close>: whether the first and the second \<open>save()\<close> of this stretch
  succeed. When the send resolved, the \<open>try\<close> block goes on with \<open>shift()\<close> and
  \<open>save()\<close>; if that \<open>save()\<close> throws, the \<open>catch\<close> block runs with the message
  already removed. When the send threw, the \<open>catch\<close> block runs at once.
\<close>

definition send_settled :: "bool \<Rightarrow> bool \<Rightarrow> bool \<Rightarrow> bot \<Rightarrow> bot" where
  "send_settled ok w1 w2 s =
     (case drain s of
        AwaitSend msg \<Rightarrow>
          if ok
          then (case save w1 (s\<lparr>queue := tl (queue s)\<rparr>) of
                  Returned s1 \<Rightarrow> process_finish (s1\<lparr>delivered := delivered s1 @ [msg]\<rparr>)
                | Threw s1 \<Rightarrow> state_of (catch_block msg w2 s1))
          else state_of (catch_block msg w1 s)
      | _ \<Rightarrow> s)"

definition delay_elapsed :: "bot \<Rightarrow> bot" where
  "delay_elapsed s = (case drain s of AwaitDelay \<Rightarrow> process_finish s | _ \<Rightarrow> s)"

definition timer_fired :: "bot \<Rightarrow> bot" where
  "timer_fired s =
     (if timers s = 0 then s else process_start (s\<lparr>timers := timers s - 1\<rparr>))"

subsection \<open>Connection supervisor\<close>

text \<open>
  \<open>handleReconnect\<close>. \<open>Math.pow(2, reconnectAttempts - 1)\<close> is an exact power of
  two here: the counter is at least 1 after the increment (it starts at 0 and is only
  incremented or reset to 0) and at most 10 on this branch.
\<close>

definition handleReconnect :: "bot \<Rightarrow> bot" where
  "handleReconnect s =
     (let s1 = s\<lparr>reconnectAttempts := reconnectAttempts s + 1\<rparr>
      in if reconnectAttempts s1 > MAX_RECONNECT_ATTEMPTS
         then s1\<lparr>restarts := restarts s1 @ [30000]\<rparr>
         else s1\<lparr>restarts := restarts s1 @
                [min (RECONNECT_INTERVAL * 2 ^ nat (reconnectAttempts s1 - 1)) 60000]\<rparr>)"

text \<open>
  The fields of a \<open>connection.update\<close> event that the handler reads.
  \<open>loggedOut\<close> says whether \<open>lastDisconnect?.error?.output?.statusCode\<close> is the
  transport library's \<open>DisconnectReason.loggedOut\<close>.
\<close>

record update =
  connection :: "string option"
  qr :: bool
  loggedOut :: bool

text \<open>
  \<open>handleConnectionUpdate\<close> up to its only \<open>await\<close>. \<open>adminNumber\<close> is what
  \<open>DB.get(FILES.SETTINGS).adminNumber\<close> reads (\<open>None\<close> when absent or empty),
  \<open>text\<close> the startup notification, and \<open>writable\<close> says whether
  \<open>DB.set(FILES.STATS, stats)\<close> in the \<open>'open'\<close> branch succeeds: when it throws,
  the handler ends there, with \<open>isBotReady\<close> set and \<open>messageQueue.process()\<close> not
  called. With an admin number the handler calls \<open>sendMessage\<close>, which finds
  \<open>isBotReady\<close> true, starts a direct transport send and suspends; the handler
  continues in \<open>notify_settled\<close>. The content of the statistics file and the cron
  registrations of \<open>startScheduledTasks\<close> are not part of the state.
\<close>

definition handleConnectionUpdate ::
    "update \<Rightarrow> string option \<Rightarrow> string \<Rightarrow> bool \<Rightarrow> bot \<Rightarrow> bot" where
  "handleConnectionUpdate u adminNumber text writable s =
     (let s1 = (if qr u then s\<lparr>reconnectAttempts := 0\<rparr> else s);
          s2 = (if connection u = Some ''open''
                then (let s' = s1\<lparr>isBotReady := True, reconnectAttempts := 0\<rparr>
                      in if \<not> writable then s'
                         else case adminNumber of
                                Some a \<Rightarrow> s'\<lparr>notifying := notifying s' @ [(a, text)]\<rparr>
                              | None \<Rightarrow> process_start s')
                else s1)
      in if connection u = Some ''close''
         then (let s3 = s2\<lparr>isBotReady := False\<rparr>
               in if \<not> loggedOut u then handleReconnect s3 else s3)
         else s2)"

text \<open>
  The \<open>k\<close>-th suspended \<open>'open'\<close> handler resumes. \<open>ok\<close>: the direct send of
  \<open>sendMessage\<close> resolved; \<open>w1\<close>: the write of the statistics file that follows it in
  the same \<open>try\<close> block succeeds. Otherwise the \<open>catch\<close> block of \<open>sendMessage\<close>
  queues the text with \<open>messageQueue.add\<close>, whose \<open>save()\<close> succeeds or not
  (\<open>w2\<close>); an exception of \<open>add\<close> leaves \<open>sendMessage\<close> and ends the handler.
  When \<open>sendMessage\<close> returns, the handler goes on with \<open>startScheduledTasks()\<close> and
  \<open>messageQueue.process()\<close>.
\<close>

definition notify_settled ::
    "nat \<Rightarrow> bool \<Rightarrow> bool \<Rightarrow> bool \<Rightarrow> string \<Rightarrow> int \<Rightarrow> bot \<Rightarrow> bot" where
  "notify_settled k ok w1 w2 uuid now s =
     (if k < length (notifying s)
      then (let (a, text) = notifying s ! k;
                s1 = s\<lparr>notifying := take k (notifying s) @ drop (Suc k) (notifying s)\<rparr>
            in if ok \<and> w1 then process_start s1
               else case add \<lparr>o_to = a, o_type = ''text'', o_content = text\<rparr> uuid now w2 s1 of
                      Returned s2 \<Rightarrow> process_start s2
                    | Threw s2 \<Rightarrow> s2)
      else s)"

subsection \<open>Events\<close>

text \<open>
  \<open>Enqueue\<close> and \<open>ConnectionUpdate\<close> come from outside (producers, the transport);
  \<open>StartBotFailed\<close> is the \<open>catch\<close> block of \<open>startBot\<close>; the others are the
  process's own continuations and timers, and do nothing when none is pending. The
  booleans are the answers of the transport and of the file system, in the order of
  the parameters of the functions above.
\<close>

datatype event =
    Enqueue outgoing string int bool
  | SendSettled bool bool bool
  | DelayElapsed
  | TimerFired
  | ConnectionUpdate update "string option" string bool
  | NotifySettled nat bool bool bool string int
  | StartBotFailed

fun step :: "event \<Rightarrow> bot \<Rightarrow> bot" where
  "step (Enqueue message uuid now w) s = state_of (add message uuid now w s)"
| "step (SendSettled ok w1 w2) s = send_settled ok w1 w2 s"
| "step DelayElapsed s = delay_elapsed s"
| "step TimerFired s = timer_fired s"
| "step (ConnectionUpdate u adminNumber text w) s = handleConnectionUpdate u adminNumber text w s"
| "step (NotifySettled k ok w1 w2 uuid now) s = notify_settled k ok w1 w2 uuid now s"
| "step StartBotFailed s = handleReconnect s"

definition run :: "event list \<Rightarrow> bot \<Rightarrow> bot" where
  "run evs s = fold step evs s"

text \<open>An event whose file writes all succeed.\<close>

fun writes_ok :: "event \<Rightarrow> bool" where
  "writes_ok (Enqueue message uuid now w) = w"
| "writes_ok (SendSettled ok w1 w2) = (w1 \<and> w2)"
| "writes_ok (ConnectionUpdate u adminNumber text w) = w"
| "writes_ok (NotifySettled k ok w1 w2 uuid now) = (w1 \<and> w2)"
| "writes_ok DelayElapsed = True"
| "writes_ok TimerFired = True"
| "writes_ok StartBotFailed = True"

text \<open>
  An event of the process itself that is pending in a state: the settling of the send
  in flight, the end of the delay, a timer, the settling of a startup notification.
\<close>

fun pending :: "event \<Rightarrow> bot \<Rightarrow> bool" where
  "pending (SendSettled ok w1 w2) s = (case drain s of AwaitSend m \<Rightarrow> True | _ \<Rightarrow> False)"
| "pending DelayElapsed s = (drain s = AwaitDelay)"
| "pending TimerFired s = (0 < timers s)"
| "pending (NotifySettled k ok w1 w2 uuid now) s = (k < length (notifying s))"
| "pending (Enqueue message uuid now w) s = False"
| "pending (ConnectionUpdate u adminNumber text w) s = False"
| "pending StartBotFailed s = False"


definition quiescent :: "bot \<Rightarrow> bool" where
  "quiescent s \<longleftrightarrow> drain s = Idle \<and> timers s = 0 \<and> notifying s = []"

subsection \<open>Invariants of the queue\<close>

text \<open>
  \<open>inv_head\<close>: a suspended activation of \<open>process()\<close> holds the flag, and its
  \<open>msg\<close> is still the head of the queue.
\<close>

definition inv_head :: "bot \<Rightarrow> bool" where
  "inv_head s \<longleftrightarrow>
     (drain s \<noteq> Idle \<longrightarrow> processing s) \<and>
     (\<forall>m. drain s = AwaitSend m \<longrightarrow> queue s \<noteq> [] \<and> hd (queue s) = m)"

text \<open>
  \<open>inv_order\<close>: the queue holds its messages in the order of their submission, and
  every send so far was for a message that is not behind any queued one.
\<close>

definition inv_order :: "bot \<Rightarrow> bool" where
  "inv_order s \<longleftrightarrow>
     sorted_wrt (<) (map seq (queue s)) \<and>
     (\<forall>n \<in> set (map seq (queue s)). n < nextseq s) \<and>
     (\<forall>a \<in> set (map seq (sends s)).
         a < nextseq s \<and> (\<forall>n \<in> set (map seq (queue s)). a \<le> n)) \<and>
     sorted (map seq (sends s))"

text \<open>
  \<open>inv_attempts\<close>: the bounds on the counters of the queued, delivered and dropped
  messages.
\<close>

definition inv_attempts :: "bot \<Rightarrow> bool" where
  "inv_attempts s \<longleftrightarrow>
     (\<forall>x \<in> set (queue s). 0 \<le> attempts x \<and> attempts x < 3) \<and>
     (\<forall>x \<in> set (delivered s). 0 \<le> attempts x \<and> attempts x < 3) \<and>
     (\<forall>x \<in> set (dropped s). attempts x = 3)"



text \<open>
  \<open>inv_shape\<close> holds in every state the bot reaches, \<open>inv_base\<close> too when the
  counters of the queue file it started from were between 0 and 2, and \<open>inv\<close> in the
  states it then reaches while the file writes succeed.
\<close>

definition inv_shape :: "bot \<Rightarrow> bool" where
  "inv_shape s \<longleftrightarrow> inv_head s \<and> inv_order s"

definition inv_base :: "bot \<Rightarrow> bool" where
  "inv_base s \<longleftrightarrow> inv_shape s \<and> inv_attempts s"


text \<open>
  \<open>message_of\<close>: a queued message without its counter, the only property
  \<open>process()\<close> writes. \<open>settled_since s s'\<close>: the messages logged as sent or as
  failed between \<open>s\<close> and \<open>s'\<close>. \<open>kept s s'\<close>: the two logs only grew, and every
  message queued in \<open>s\<close> is still queued in \<open>s'\<close> or was logged in between.
\<close>

definition message_of :: "envelope \<Rightarrow> envelope" where
  "message_of x = x\<lparr>attempts := 0\<rparr>"



text \<open>
  \<open>starts s s'\<close>: going from \<open>s\<close> to \<open>s'\<close> started no send, or one send, for
  the head of the queue, with the bot ready.
\<close>

definition starts :: "bot \<Rightarrow> bot \<Rightarrow> bool" where
  "starts s s' \<longleftrightarrow>
     sends s' = sends s \<or>
     isBotReady s' \<and> queue s' \<noteq> [] \<and> sends s' = sends s @ [hd (queue s')]"

text \<open>
  The work left: the sends the queued messages may still take (three each, less the
  failures counted), the startup notifications to settle, and the position of the
  activation of \<open>process()\<close>. Every pending event of the process makes it smaller.
\<close>

definition budget :: "envelope \<Rightarrow> nat" where
  "budget x = nat (3 - attempts x)"

fun rank :: "drain_pc \<Rightarrow> nat" where
  "rank (AwaitSend m) = 0"
| "rank Idle = 2"
| "rank AwaitDelay = 4"

definition work :: "bot \<Rightarrow> nat" where
  "work s =
     5 * (sum_list (map budget (queue s)) + 4 * length (notifying s)) +
     rank (drain s) + timers s"

text \<open>
  The delay of the \<open>setTimeout(startBot, ...)\<close> that \<open>handleReconnect\<close> makes when
  its increment brings the counter to \<open>n\<close>.
\<close>

definition scheduled_delay :: "int \<Rightarrow> int" where
  "scheduled_delay n =
     last (restarts (handleReconnect ((boot [])\<lparr>reconnectAttempts := n - 1\<rparr>)))"

section \<open>AntiSpam\<close>

text \<open>
  \<open>this.limits\<close> is set once in the constructor and never written again.
\<close>

definition limits_messages :: int where
  "limits_messages = 10"

definition limits_window :: int where
  "limits_window = 10000"

definition limits_blockDuration :: int where
  "limits_blockDuration = 300000"

text \<open>
  \<open>unbans\<close> holds the pending \<open>setTimeout(() => this.banned.delete(userId),
  blockDuration)\<close> callbacks, each with the instant from which the runtime may run it.
\<close>

record antispam =
  messages :: "string \<rightharpoonup> int list"
  banned :: "string set"
  unbans :: "(int \<times> string) list"

definition antispam_new :: antispam where
  "antispam_new = \<lparr>messages = Map.empty, banned = {}, unbans = []\<rparr>"

text \<open>
  The three objects \<open>check\<close> returns: \<open>{allowed: true}\<close>,
  \<open>{allowed: false, reason: 'banned', remaining}\<close> and
  \<open>{allowed: false, reason: 'spam_detected', blockDuration}\<close>.
\<close>

datatype verdict = Allowed | Banned int | SpamDetected int

definition getRemainingBlock :: "antispam \<Rightarrow> string \<Rightarrow> int" where
  "getRemainingBlock s userId = limits_blockDuration"

text \<open>
  \<open>ban\<close> runs in the same synchronous stretch as the \<open>Date.now()\<close> of \<open>check\<close>,
  so the callback is due \<open>blockDuration\<close> after \<open>now\<close>.
\<close>

definition ban :: "string \<Rightarrow> int \<Rightarrow> antispam \<Rightarrow> antispam" where
  "ban userId now s =
     s\<lparr>banned := insert userId (banned s),
       unbans := unbans s @ [(now + limits_blockDuration, userId)]\<rparr>"

definition check :: "string \<Rightarrow> int \<Rightarrow> antispam \<Rightarrow> verdict \<times> antispam" where
  "check userId now s =
     (if userId \<in> banned s \<and> getRemainingBlock s userId > 0
      then (Banned (getRemainingBlock s userId), s)
      else
        (let s1 = (if userId \<in> banned s then s\<lparr>banned := banned s - {userId}\<rparr> else s);
             userMessages = (case messages s1 userId of Some ts \<Rightarrow> ts | None \<Rightarrow> []);
             recent = filter (\<lambda>time. now - time < limits_window) userMessages @ [now];
             s2 = s1\<lparr>messages := (messages s1)(userId \<mapsto> recent)\<rparr>
         in if int (length recent) > limits_messages
            then (SpamDetected limits_blockDuration, ban userId now s2)
            else (Allowed, s2)))"

text \<open>
  The \<open>k\<close>-th pending callback runs: \<open>this.banned.delete(userId)\<close>, with no test
  of the time. The instant kept with a pending callback is the one its delay ends at;
  when the runtime runs the callback is not the code's doing, and the event carries
  the reading of \<open>Date.now()\<close> at that moment.
\<close>

definition unban_fired :: "nat \<Rightarrow> antispam \<Rightarrow> antispam" where
  "unban_fired k s =
     (if k < length (unbans s)
      then s\<lparr>banned := banned s - {snd (unbans s ! k)},
             unbans := take k (unbans s) @ drop (Suc k) (unbans s)\<rparr>
      else s)"

datatype spam_event = Check string int | UnbanFired nat int

fun spam_time :: "spam_event \<Rightarrow> int" where
  "spam_time (Check userId now) = now"
| "spam_time (UnbanFired k now) = now"

fun spam_step :: "spam_event \<Rightarrow> antispam \<Rightarrow> antispam" where
  "spam_step (Check userId now) s = snd (check userId now s)"
| "spam_step (UnbanFired k now) s = unban_fired k s"

definition spam_run :: "spam_event list \<Rightarrow> antispam \<Rightarrow> antispam" where
  "spam_run evs s = fold spam_step evs s"


text \<open>
  Two predicates on states of the filter. \<open>timers_ok\<close>: every pending callback
  belongs to a banned sender, and no sender has two. \<open>held userId due\<close>: the sender
  is banned and its pending callback is the one due at \<open>due\<close>.
\<close>

definition timers_ok :: "antispam \<Rightarrow> bool" where
  "timers_ok s \<longleftrightarrow> distinct (map snd (unbans s)) \<and> snd ` set (unbans s) \<subseteq> banned s"

definition held :: "string \<Rightarrow> int \<Rightarrow> antispam \<Rightarrow> bool" where
  "held userId due s \<longleftrightarrow>
     userId \<in> banned s \<and> (due, userId) \<in> set (unbans s) \<and>
     (\<forall>d. (d, userId) \<in> set (unbans s) \<longrightarrow> d = due)"

text \<open>
  An event that runs a pending callback of the sender, and a sequence of events none
  of which does.
\<close>

fun runs_callback_of :: "string \<Rightarrow> spam_event \<Rightarrow> antispam \<Rightarrow> bool" where
  "runs_callback_of userId (UnbanFired k now) s =
     (k < length (unbans s) \<and> snd (unbans s ! k) = userId)"
| "runs_callback_of userId (Check v now) s = False"

fun quiet :: "string \<Rightarrow> spam_event list \<Rightarrow> antispam \<Rightarrow> bool" where
  "quiet userId [] s = True"
| "quiet userId (e # es) s =
     (\<not> runs_callback_of userId e s \<and> quiet userId es (spam_step e s))"

section \<open>One-time codes\<close>

record otp =
  code :: string
  expires :: int
  otp_attempts :: int

subsection \<open>The bot's file-backed store\<close>

text \<open>
  The state is the content of the OTP file, an object from keys to records.
  \<open>digits\<close> is \<open>phone.replace(/[^0-9]/g, '')\<close>.
\<close>

definition digits :: "string \<Rightarrow> string" where
  "digits phone = filter (\<lambda>c. c \<in> set ''0123456789'') phone"

text \<open>The write at the end of \<open>cmdSendOTP\<close>.\<close>

definition cmdSendOTP_store :: "string \<Rightarrow> string \<Rightarrow> int \<Rightarrow> (string \<rightharpoonup> otp) \<Rightarrow> (string \<rightharpoonup> otp)" where
  "cmdSendOTP_store phone c now otps =
     otps(digits phone \<mapsto> \<lparr>code = c, expires = now + 5 * 60 * 1000, otp_attempts = 0\<rparr>)"

text \<open>\<open>{valid: true}\<close> or \<open>{valid: false, message}\<close>.\<close>

datatype verify_result = Valid | Invalid string

definition verifyOTP :: "string \<Rightarrow> string \<Rightarrow> int \<Rightarrow> (string \<rightharpoonup> otp) \<Rightarrow> verify_result \<times> (string \<rightharpoonup> otp)" where
  "verifyOTP phone c now otps =
     (case otps (digits phone) of
        None \<Rightarrow> (Invalid ''OTP tidak ditemukan'', otps)
      | Some data \<Rightarrow>
          if expires data < now then (Invalid ''OTP expired'', otps)
          else if code data \<noteq> c
          then (Invalid ''Kode salah'',
                otps(digits phone \<mapsto> data\<lparr>otp_attempts := otp_attempts data + 1\<rparr>))
          else (Valid, otps(phone := None)))"

subsection \<open>The serverless handler\<close>

text \<open>
  \<open>api/auth/verify.js\<close> on a POST request. The key-value store is three maps, one for
  each key prefix (\<open>otp:\<close>, \<open>session:\<close>, \<open>user:\<close>); its own expiry of entries is
  not modelled, and its calls are taken to succeed (a failing call is the 500 response).
  \<open>sid\<close> and \<open>uid\<close> are the results of \<open>generateSessionId()\<close> and
  \<open>generateId()\<close>. An optional field is \<open>None\<close> where the object has
  \<open>undefined\<close> or \<open>null\<close>.
\<close>

record verify_body =
  b_phone :: "string option"
  b_email :: "string option"
  b_code :: string
  b_adminCode :: "string option"

record account =
  a_id :: string
  a_name :: "string option"
  a_phone :: "string option"
  a_email :: "string option"
  a_role :: string
  a_createdAt :: int

record kv =
  otp_kv :: "string \<rightharpoonup> otp"
  session_kv :: "string \<rightharpoonup> account"
  user_kv :: "string \<rightharpoonup> account"

datatype response = AdminOk string | Status400 string | UserOk string account

definition ADMIN_SECRET :: string where
  "ADMIN_SECRET = ''#6287717274346''"

text \<open>JavaScript's \<open>a || b\<close> on optional strings: the empty string is falsy.\<close>

definition js_or :: "string option \<Rightarrow> string option \<Rightarrow> string option" where
  "js_or a b = (case a of Some x \<Rightarrow> (if x \<noteq> [] then Some x else b) | None \<Rightarrow> b)"

text \<open>The template literal prints a missing target as \<open>undefined\<close>.\<close>

definition key_of :: "string option \<Rightarrow> string" where
  "key_of t = (case t of Some x \<Rightarrow> x | None \<Rightarrow> ''undefined'')"

text \<open>\<open>phone || email\<close>, as it appears in the key.\<close>

definition target_key :: "verify_body \<Rightarrow> string" where
  "target_key b = key_of (js_or (b_phone b) (b_email b))"

definition handler :: "verify_body \<Rightarrow> int \<Rightarrow> string \<Rightarrow> string \<Rightarrow> kv \<Rightarrow> response \<times> kv" where
  "handler b now sid uid s =
     (if b_adminCode b = Some ADMIN_SECRET
      then (AdminOk sid,
            s\<lparr>session_kv := (session_kv s)(sid \<mapsto>
                 \<lparr>a_id = ''admin'', a_name = Some ''Administrator'', a_phone = Some ''6287717274346'',
                  a_email = None, a_role = ''admin'', a_createdAt = now\<rparr>)\<rparr>)
      else
        (let target = target_key b
         in case otp_kv s target of
              None \<Rightarrow> (Status400 ''OTP not found or expired'', s)
            | Some data \<Rightarrow>
                if expires data < now
                then (Status400 ''OTP expired'', s\<lparr>otp_kv := (otp_kv s)(target := None)\<rparr>)
                else if code data \<noteq> b_code b
                then (Status400 ''Invalid code'',
                      s\<lparr>otp_kv := (otp_kv s)(target \<mapsto>
                           data\<lparr>otp_attempts := otp_attempts data + 1\<rparr>)\<rparr>)
                else
                  (let userData = \<lparr>a_id = uid, a_name = js_or (b_phone b) (b_email b),
                                   a_phone = js_or (b_phone b) None,
                                   a_email = js_or (b_email b) None,
                                   a_role = ''user'', a_createdAt = now\<rparr>
                   in (UserOk sid userData,
                       s\<lparr>otp_kv := (otp_kv s)(target := None),
                         session_kv := (session_kv s)(sid \<mapsto> userData),
                         user_kv := (user_kv s)(target \<mapsto> userData)\<rparr>))))"

section \<open>Properties of the connection supervisor\<close>

lemma handleReconnect_restarts:
  "restarts (handleReconnect s) = restarts s @ [scheduled_delay (reconnectAttempts s + 1)]"
  by (simp add: handleReconnect_def scheduled_delay_def Let_def)

lemma scheduled_delay_low:
  "n \<le> 10 \<Longrightarrow> scheduled_delay n = min (5000 * 2 ^ nat (n - 1)) 60000"
  by (simp add: handleReconnect_def scheduled_delay_def Let_def
      MAX_RECONNECT_ATTEMPTS_def RECONNECT_INTERVAL_def)

lemma scheduled_delay_high: "10 < n \<Longrightarrow> scheduled_delay n = 30000"
  by (simp add: handleReconnect_def scheduled_delay_def Let_def MAX_RECONNECT_ATTEMPTS_def)

lemma pow2_pred_mono: "m \<le> n \<Longrightarrow> (2::int) ^ nat (m - 1) \<le> 2 ^ nat (n - 1)"
  by (rule power_increasing) auto

lemma scheduled_delay_mono:
  assumes "m \<le> n" and "n \<le> 10"
  shows "scheduled_delay m \<le> scheduled_delay n"
proof -
  have "(2::int) ^ nat (m - 1) \<le> 2 ^ nat (n - 1)"
    using assms(1) by (rule pow2_pred_mono)
  then have "min ((5000::int) * 2 ^ nat (m - 1)) 60000 \<le> min (5000 * 2 ^ nat (n - 1)) 60000"
    by (intro min.mono) simp_all
  moreover have "m \<le> 10" using assms by simp
  ultimately show ?thesis using assms(2) by (simp only: scheduled_delay_low)
qed

text \<open>What each transition does to the counter.\<close>

lemma counter_process_start [simp]:
  "reconnectAttempts (process_start s) = reconnectAttempts s"
  by (simp add: process_start_def)

lemma counter_process_finish [simp]:
  "reconnectAttempts (process_finish s) = reconnectAttempts s"
  by (simp add: process_finish_def Let_def)

lemma counter_add [simp]:
  "reconnectAttempts (state_of (add message uuid now w s)) = reconnectAttempts s"
  by (simp add: add_def save_def queue_push_def)

lemma counter_catch_block [simp]:
  "reconnectAttempts (state_of (catch_block msg w s)) = reconnectAttempts s"
  by (simp add: catch_block_def save_def Let_def)

lemma counter_send_settled [simp]:
  "reconnectAttempts (send_settled ok w1 w2 s) = reconnectAttempts s"
  by (cases "drain s") (simp_all add: send_settled_def save_def)

lemma counter_delay_elapsed [simp]:
  "reconnectAttempts (delay_elapsed s) = reconnectAttempts s"
  by (cases "drain s") (simp_all add: delay_elapsed_def)

lemma counter_timer_fired [simp]:
  "reconnectAttempts (timer_fired s) = reconnectAttempts s"
  by (simp add: timer_fired_def)

lemma counter_notify_settled [simp]:
  "reconnectAttempts (notify_settled k ok w1 w2 uuid now s) = reconnectAttempts s"
  by (simp add: notify_settled_def add_def save_def queue_push_def Let_def case_prod_beta)

lemma counter_handleReconnect:
  "reconnectAttempts (handleReconnect s) = reconnectAttempts s + 1"
  by (simp add: handleReconnect_def Let_def)

lemma counter_handleConnectionUpdate:
  "reconnectAttempts (handleConnectionUpdate u a t w s) =
     (if connection u = Some ''close''
      then (if qr u then 0 else reconnectAttempts s) + (if loggedOut u then 0 else 1)
      else if connection u = Some ''open'' \<or> qr u then 0 else reconnectAttempts s)"
  by (simp add: handleConnectionUpdate_def counter_handleReconnect Let_def
      split: option.splits)

text \<open>
  An event keeps the counter, or adds 1 to it, or is an update that reports
  \<open>'open'\<close> or carries a QR code and leaves it at 0 (at 1 when the same update
  reports \<open>'close'\<close> and so calls \<open>handleReconnect\<close>).
\<close>

lemma counter_step:
  "reconnectAttempts (step e s) = reconnectAttempts s \<or>
   reconnectAttempts (step e s) = reconnectAttempts s + 1 \<or>
   (\<exists>u a t w. e = ConnectionUpdate u a t w \<and> (connection u = Some ''open'' \<or> qr u) \<and>
       (reconnectAttempts (step e s) = 0 \<or> reconnectAttempts (step e s) = 1))"
  by (cases e) (simp_all add: counter_handleReconnect counter_handleConnectionUpdate)

text \<open>The counter never goes below 0, so the exponent in \<open>handleReconnect\<close> is never negative.\<close>

lemma reconnectAttempts_step:
  assumes nn: "0 \<le> reconnectAttempts s"
  shows "0 \<le> reconnectAttempts (step e s)"
  using counter_step [of e s] nn by auto

lemma reconnectAttempts_nonneg: "0 \<le> reconnectAttempts (run evs (boot stored))"
proof -
  have "0 \<le> reconnectAttempts s \<Longrightarrow> 0 \<le> reconnectAttempts (run evs s)" for s
    unfolding run_def by (induction evs arbitrary: s) (simp_all add: reconnectAttempts_step)
  then show ?thesis by (simp add: boot_def)
qed

text \<open>
  C4, as the code has it. While the incremented counter \<open>n\<close> is between 1 and
  \<open>MAX_RECONNECT_ATTEMPTS\<close>, \<open>handleReconnect\<close> stores \<open>n\<close> and schedules the restart
  after \<open>min (base * 2 ^ (n - 1)) cap\<close> with base 5000 and cap 60000; attempts 1 to 5
  wait 5000, 10000, 20000, 40000 and 60000 ms; up to \<open>n\<close> the delays never decrease,
  and none is above 60000.
\<close>

theorem reconnect_delay_backoff:
  assumes "1 \<le> n" and "n \<le> MAX_RECONNECT_ATTEMPTS"
  shows "scheduled_delay n = min (RECONNECT_INTERVAL * 2 ^ nat (n - 1)) 60000 \<and>
         (reconnectAttempts s = n - 1 \<longrightarrow>
            handleReconnect s =
              s\<lparr>reconnectAttempts := n, restarts := restarts s @ [scheduled_delay n]\<rparr>) \<and>
         map scheduled_delay [1, 2, 3, 4, 5] = [5000, 10000, 20000, 40000, 60000] \<and>
         (\<forall>m. 1 \<le> m \<and> m \<le> n \<longrightarrow> scheduled_delay m \<le> scheduled_delay n) \<and>
         scheduled_delay n \<le> 60000"
proof -
  from assms have n10: "n \<le> 10" by (simp add: MAX_RECONNECT_ATTEMPTS_def)
  have a: "scheduled_delay n = min (RECONNECT_INTERVAL * 2 ^ nat (n - 1)) 60000"
    using n10 by (simp add: scheduled_delay_low RECONNECT_INTERVAL_def)
  have b: "reconnectAttempts s = n - 1 \<longrightarrow>
            handleReconnect s =
              s\<lparr>reconnectAttempts := n, restarts := restarts s @ [scheduled_delay n]\<rparr>"
    using n10 by (simp add: scheduled_delay_low handleReconnect_def Let_def
        MAX_RECONNECT_ATTEMPTS_def RECONNECT_INTERVAL_def)
  have c: "map scheduled_delay [1, 2, 3, 4, 5] = [5000, 10000, 20000, 40000, 60000]"
    by (simp add: scheduled_delay_low nat_numeral_diff_1)
  have d: "\<forall>m. 1 \<le> m \<and> m \<le> n \<longrightarrow> scheduled_delay m \<le> scheduled_delay n"
    using n10 by (simp add: scheduled_delay_mono)
  have e: "scheduled_delay n \<le> 60000"
    using n10 by (simp add: scheduled_delay_low)
  from a b c d e show ?thesis by blast
qed

theorem reconnect_delay_backoff_witness:
  "(1::int) \<le> 5 \<and> 5 \<le> MAX_RECONNECT_ATTEMPTS \<and> scheduled_delay 5 = 60000 \<and>
   scheduled_delay 3 \<le> scheduled_delay 5 \<and>
   handleReconnect ((boot [])\<lparr>reconnectAttempts := 4\<rparr>) =
     (boot [])\<lparr>reconnectAttempts := 5, restarts := [60000]\<rparr>"
  using reconnect_delay_backoff [of 5 "(boot [])\<lparr>reconnectAttempts := 4\<rparr>"]
  by (simp add: MAX_RECONNECT_ATTEMPTS_def RECONNECT_INTERVAL_def boot_def load_def)

text \<open>
  The formula does not hold for every \<open>n \<ge> 1\<close>: ten failed starts in a row bring
  the counter to 10, the eleventh schedules the restart after 30000 ms, where the
  formula gives 60000, and the delay drops from 60000 to 30000.
\<close>

theorem reconnect_delay_counterexample:
  "reconnectAttempts (run (replicate 10 StartBotFailed) (boot [])) = 10 \<and>
   restarts (run (replicate 11 StartBotFailed) (boot [])) ! 10 = scheduled_delay 11 \<and>
   scheduled_delay 11 \<noteq> min (RECONNECT_INTERVAL * 2 ^ nat (11 - 1)) 60000 \<and>
   scheduled_delay 11 < scheduled_delay 10"
  by (simp add: run_def eval_nat_numeral handleReconnect_def scheduled_delay_def Let_def
      boot_def load_def MAX_RECONNECT_ATTEMPTS_def RECONNECT_INTERVAL_def)

text \<open>
  C5, as the code has it. When the incremented counter is above
  \<open>MAX_RECONNECT_ATTEMPTS\<close>, \<open>handleReconnect\<close> schedules \<open>startBot\<close> after a fixed
  30000 ms and keeps the incremented counter; the counter goes back to 0 only in
  \<open>handleConnectionUpdate\<close>, when an update reports \<open>'open'\<close> or carries a QR code:
  such an update resets it, and in any state every event that makes the counter
  smaller is such an update (the other events keep it or add 1 to it).
\<close>

theorem reconnect_ceiling:
  assumes "MAX_RECONNECT_ATTEMPTS < reconnectAttempts s + 1"
  shows "handleReconnect s =
           s\<lparr>reconnectAttempts := reconnectAttempts s + 1, restarts := restarts s @ [30000]\<rparr> \<and>
         reconnectAttempts (handleReconnect (handleReconnect s)) = reconnectAttempts s + 2 \<and>
         (connection u = Some ''open'' \<or> qr u \<longrightarrow> connection u \<noteq> Some ''close'' \<longrightarrow>
            reconnectAttempts
              (handleConnectionUpdate u adminNumber notice writable (handleReconnect s)) = 0) \<and>
         (\<forall>s' e. reconnectAttempts (step e s') < reconnectAttempts s' \<longrightarrow>
            (\<exists>u a t w. e = ConnectionUpdate u a t w \<and>
               (connection u = Some ''open'' \<or> qr u))) \<and>
         (\<forall>s' e. (\<forall>u a t w. e = ConnectionUpdate u a t w \<longrightarrow>
                      connection u \<noteq> Some ''open'' \<and> \<not> qr u) \<longrightarrow>
            reconnectAttempts (step e s') = reconnectAttempts s' \<or>
            reconnectAttempts (step e s') = reconnectAttempts s' + 1)"
proof -
  have a: "handleReconnect s =
           s\<lparr>reconnectAttempts := reconnectAttempts s + 1, restarts := restarts s @ [30000]\<rparr>"
    using assms by (simp add: handleReconnect_def Let_def)
  have b: "reconnectAttempts (handleReconnect (handleReconnect s)) = reconnectAttempts s + 2"
    by (simp add: counter_handleReconnect)
  have c: "connection u = Some ''open'' \<or> qr u \<longrightarrow> connection u \<noteq> Some ''close'' \<longrightarrow>
            reconnectAttempts
              (handleConnectionUpdate u adminNumber notice writable (handleReconnect s)) = 0"
    by (simp add: counter_handleConnectionUpdate)
  have d: "\<forall>s' e. reconnectAttempts (step e s') < reconnectAttempts s' \<longrightarrow>
            (\<exists>u a t w. e = ConnectionUpdate u a t w \<and>
               (connection u = Some ''open'' \<or> qr u))"
  proof (intro allI impI)
    fix s' e assume "reconnectAttempts (step e s') < reconnectAttempts s'"
    then show "\<exists>u a t w. e = ConnectionUpdate u a t w \<and> (connection u = Some ''open'' \<or> qr u)"
      using counter_step [of e s'] by auto
  qed
  have e: "\<forall>s' e. (\<forall>u a t w. e = ConnectionUpdate u a t w \<longrightarrow>
                      connection u \<noteq> Some ''open'' \<and> \<not> qr u) \<longrightarrow>
            reconnectAttempts (step e s') = reconnectAttempts s' \<or>
            reconnectAttempts (step e s') = reconnectAttempts s' + 1"
  proof (intro allI impI)
    fix s' e
    assume "\<forall>u a t w. e = ConnectionUpdate u a t w \<longrightarrow>
                      connection u \<noteq> Some ''open'' \<and> \<not> qr u"
    then show "reconnectAttempts (step e s') = reconnectAttempts s' \<or>
            reconnectAttempts (step e s') = reconnectAttempts s' + 1"
      using counter_step [of e s'] by blast
  qed
  from a b c d e show ?thesis by blast
qed

theorem reconnect_ceiling_witness:
  "handleReconnect ((boot [])\<lparr>reconnectAttempts := 10\<rparr>) =
     (boot [])\<lparr>reconnectAttempts := 11, restarts := [30000]\<rparr> \<and>
   reconnectAttempts (handleConnectionUpdate \<lparr>connection = Some ''open'', qr = False, loggedOut = False\<rparr>
     None [] True (handleReconnect ((boot [])\<lparr>reconnectAttempts := 10\<rparr>))) = 0"
  using reconnect_ceiling [of "(boot [])\<lparr>reconnectAttempts := 10\<rparr>"
      "\<lparr>connection = Some ''open'', qr = False, loggedOut = False\<rparr>" None "[]" True]
  by (simp add: MAX_RECONNECT_ATTEMPTS_def boot_def load_def handleReconnect_def
      handleConnectionUpdate_def process_start_def Let_def)

text \<open>
  The counter is not reset at the ceiling: after eleven failed starts in a row it
  is 11, and the cooldown of 30000 ms is shorter than the 60000 ms that preceded it.
\<close>

theorem reconnect_ceiling_counterexample:
  "reconnectAttempts (run (replicate 11 StartBotFailed) (boot [])) = 11 \<and>
   restarts (run (replicate 11 StartBotFailed) (boot [])) ! 10 = 30000 \<and>
   restarts (run (replicate 11 StartBotFailed) (boot [])) ! 9 = 60000"
  by (simp add: run_def eval_nat_numeral handleReconnect_def Let_def
      boot_def load_def MAX_RECONNECT_ATTEMPTS_def RECONNECT_INTERVAL_def)

section \<open>Properties of the anti-spam filter\<close>

lemma check_banned:
  "userId \<in> banned s \<Longrightarrow> check userId now s = (Banned limits_blockDuration, s)"
  by (simp add: check_def getRemainingBlock_def limits_blockDuration_def)

lemma check_unbanned:
  "userId \<notin> banned s \<Longrightarrow>
   check userId now s =
     (let recent = filter (\<lambda>time. now - time < limits_window)
                     (case messages s userId of Some ts \<Rightarrow> ts | None \<Rightarrow> []) @ [now];
          s2 = s\<lparr>messages := (messages s)(userId \<mapsto> recent)\<rparr>
      in if int (length recent) > limits_messages
         then (SpamDetected limits_blockDuration, ban userId now s2)
         else (Allowed, s2))"
  by (simp add: check_def Let_def)

lemma check_keeps_bans: "banned s \<subseteq> banned (snd (check v t s))"
  by (cases "v \<in> banned s") (auto simp: check_banned check_unbanned Let_def ban_def)







lemma remove_nth_set:
  "set (take k xs @ drop (Suc k) xs) \<subseteq> set xs"
  by (auto dest: in_set_takeD in_set_dropD)

lemma remove_nth_keeps:
  assumes "x \<in> set xs" and "k < length xs" and "x \<noteq> xs ! k"
  shows "x \<in> set (take k xs @ drop (Suc k) xs)"
proof -
  have "set (take k xs @ xs ! k # drop (Suc k) xs) = set xs"
    by (simp only: id_take_nth_drop [OF assms(2), symmetric])
  then have "x \<in> set (take k xs @ xs ! k # drop (Suc k) xs)"
    using assms(1) by (simp only:)
  then show ?thesis using assms(3) by auto
qed

lemma remove_nth_distinct:
  assumes "distinct (map f xs)" and "k < length xs"
  shows "distinct (map f (take k xs @ drop (Suc k) xs)) \<and>
         f (xs ! k) \<notin> f ` set (take k xs @ drop (Suc k) xs)"
proof -
  have "distinct (map f (take k xs @ xs ! k # drop (Suc k) xs))"
    using assms(1) by (simp only: id_take_nth_drop [OF assms(2), symmetric])
  then show ?thesis by auto
qed

lemma timers_ok_check:
  assumes "timers_ok s"
  shows "timers_ok (snd (check v t s))"
proof (cases "v \<in> banned s")
  case True
  then show ?thesis using assms by (simp add: check_banned)
next
  case False
  then have "v \<notin> snd ` set (unbans s)" using assms by (auto simp: timers_ok_def)
  then show ?thesis
    using assms False
    by (auto simp: check_unbanned Let_def ban_def timers_ok_def)
qed

lemma timers_ok_unban:
  assumes "timers_ok s"
  shows "timers_ok (unban_fired k s)"
proof (cases "k < length (unbans s)")
  case False
  then show ?thesis using assms by (simp add: unban_fired_def)
next
  case True
  let ?r = "take k (unbans s) @ drop (Suc k) (unbans s)"
  have d: "distinct (map snd ?r) \<and> snd (unbans s ! k) \<notin> snd ` set ?r"
    using assms True by (intro remove_nth_distinct) (auto simp: timers_ok_def)
  have "snd ` set ?r \<subseteq> banned s"
    using assms remove_nth_set [of k "unbans s"] by (auto simp: timers_ok_def)
  then have "snd ` set ?r \<subseteq> banned s - {snd (unbans s ! k)}" using d by blast
  then show ?thesis using True d by (simp add: unban_fired_def timers_ok_def)
qed

lemma timers_ok_step: "timers_ok s \<Longrightarrow> timers_ok (spam_step e s)"
  by (cases e) (simp_all add: timers_ok_check timers_ok_unban)

lemma timers_ok_run: "timers_ok s \<Longrightarrow> timers_ok (spam_run evs s)"
  unfolding spam_run_def by (induction evs arbitrary: s) (simp_all add: timers_ok_step)

lemma timers_ok_new: "timers_ok antispam_new"
  by (simp add: timers_ok_def antispam_new_def)

lemma check_unbanned_state:
  assumes "v \<notin> banned s"
  shows "\<exists>m. snd (check v t s) = s\<lparr>messages := m\<rparr> \<or>
             snd (check v t s) = ban v t (s\<lparr>messages := m\<rparr>)"
proof -
  let ?recent = "filter (\<lambda>time. t - time < limits_window)
                     (case messages s v of Some ts \<Rightarrow> ts | None \<Rightarrow> []) @ [t]"
  let ?s2 = "s\<lparr>messages := (messages s)(v \<mapsto> ?recent)\<rparr>"
  have "check v t s =
      (if int (length ?recent) > limits_messages
       then (SpamDetected limits_blockDuration, ban v t ?s2) else (Allowed, ?s2))"
    by (simp only: check_unbanned [OF assms] Let_def)
  then have "snd (check v t s) = ?s2 \<or> snd (check v t s) = ban v t ?s2"
    by (simp split: if_splits)
  then show ?thesis by blast
qed

lemma check_spam_state:
  assumes "fst (check v t s) = SpamDetected d"
  shows "v \<notin> banned s \<and> (\<exists>m. snd (check v t s) = ban v t (s\<lparr>messages := m\<rparr>))"
proof -
  have nb: "v \<notin> banned s" using assms by (auto simp: check_banned)
  let ?recent = "filter (\<lambda>time. t - time < limits_window)
                     (case messages s v of Some ts \<Rightarrow> ts | None \<Rightarrow> []) @ [t]"
  let ?s2 = "s\<lparr>messages := (messages s)(v \<mapsto> ?recent)\<rparr>"
  have "check v t s =
      (if int (length ?recent) > limits_messages
       then (SpamDetected limits_blockDuration, ban v t ?s2) else (Allowed, ?s2))"
    by (simp only: check_unbanned [OF nb] Let_def)
  then have "snd (check v t s) = ban v t ?s2"
    using assms by (simp split: if_splits)
  then show ?thesis using nb by blast
qed

lemma held_messages: "held u due (s\<lparr>messages := m\<rparr>) = held u due s"
  by (simp add: held_def)

lemma held_ban_other: "v \<noteq> u \<Longrightarrow> held u due s \<Longrightarrow> held u due (ban v t s)"
  by (simp add: held_def ban_def)

lemma held_ban_fresh:
  "\<forall>d. (d, u) \<notin> set (unbans s) \<Longrightarrow> held u (t + limits_blockDuration) (ban u t s)"
  by (simp add: held_def ban_def)

lemma held_after_ban:
  assumes "timers_ok s" and "fst (check userId T s) = SpamDetected d"
  shows "held userId (T + limits_blockDuration) (snd (check userId T s))"
proof -
  from check_spam_state [OF assms(2)] obtain m
    where nb: "userId \<notin> banned s"
      and st: "snd (check userId T s) = ban userId T (s\<lparr>messages := m\<rparr>)"
    by blast
  from nb have "userId \<notin> snd ` set (unbans s)" using assms(1) by (auto simp: timers_ok_def)
  then have "\<forall>d. (d, userId) \<notin> set (unbans (s\<lparr>messages := m\<rparr>))" by force
  then show ?thesis unfolding st by (rule held_ban_fresh)
qed

lemma held_check:
  assumes "held userId due s"
  shows "held userId due (snd (check v t s))"
proof (cases "v \<in> banned s")
  case True
  then show ?thesis using assms by (simp add: check_banned)
next
  case False
  then have ne: "v \<noteq> userId" using assms by (auto simp: held_def)
  from check_unbanned_state [OF False, of t] obtain m
    where "snd (check v t s) = s\<lparr>messages := m\<rparr> \<or>
           snd (check v t s) = ban v t (s\<lparr>messages := m\<rparr>)" by blast
  then show ?thesis
    using assms ne by (auto simp: held_messages held_ban_other)
qed

lemma held_unban:
  assumes "held userId due s" and "\<not> (k < length (unbans s) \<and> snd (unbans s ! k) = userId)"
  shows "held userId due (unban_fired k s)"
proof (cases "k < length (unbans s)")
  case False
  then show ?thesis using assms by (simp add: unban_fired_def)
next
  case True
  let ?r = "take k (unbans s) @ drop (Suc k) (unbans s)"
  obtain d v where x: "unbans s ! k = (d, v)" by (cases "unbans s ! k")
  have ne: "v \<noteq> userId" using assms(2) True x by simp
  then have "(due, userId) \<noteq> unbans s ! k" using x by simp
  moreover have "(due, userId) \<in> set (unbans s)" using assms(1) by (simp add: held_def)
  ultimately have a: "(due, userId) \<in> set ?r"
    using True by (intro remove_nth_keeps) simp_all
  have b: "\<forall>d. (d, userId) \<in> set ?r \<longrightarrow> d = due"
  proof (intro allI impI)
    fix d' assume "(d', userId) \<in> set ?r"
    then have "(d', userId) \<in> set (unbans s)"
      using remove_nth_set [of k "unbans s"] by blast
    then show "d' = due" using assms(1) by (simp add: held_def)
  qed
  have c: "userId \<in> banned s - {v}" using assms(1) ne by (simp add: held_def)
  have "unban_fired k s = s\<lparr>banned := banned s - {v}, unbans := ?r\<rparr>"
    using True x by (simp add: unban_fired_def)
  then show ?thesis using a b c by (simp add: held_def)
qed

lemma held_step:
  assumes "held userId due s" and "\<not> runs_callback_of userId e s"
  shows "held userId due (spam_step e s)"
  using assms by (cases e) (simp_all add: held_check held_unban)

lemma held_run:
  "held userId due s \<Longrightarrow> quiet userId evs s \<Longrightarrow> held userId due (spam_run evs s)"
  unfolding spam_run_def by (induction evs arbitrary: s) (simp_all add: held_step)

lemma cleared_iff:
  assumes "userId \<in> banned s"
  shows "userId \<notin> banned (spam_step e s) \<longleftrightarrow> runs_callback_of userId e s"
proof (cases e)
  case (Check v t)
  then show ?thesis using assms check_keeps_bans [of s v t] by auto
next
  case (UnbanFired k t)
  then show ?thesis using assms by (auto simp: unban_fired_def)
qed

lemma one_callback:
  assumes "distinct (map snd xs)" and "(d, u) \<in> set xs"
  shows "length (filter (\<lambda>p. snd p = u) xs) = 1"
  using assms
proof (induction xs)
  case Nil
  then show ?case by simp
next
  case (Cons x xs)
  show ?case
  proof (cases "snd x = u")
    case True
    then have "u \<notin> snd ` set xs" using Cons.prems(1) by simp
    then have "\<forall>p \<in> set xs. snd p \<noteq> u" by force
    then have "filter (\<lambda>p. snd p = u) xs = []" by (simp add: filter_empty_conv)
    then show ?thesis using True by simp
  next
    case False
    then have "(d, u) \<in> set xs" using Cons.prems(2) by auto
    then show ?thesis using Cons.IH Cons.prems(1) False by simp
  qed
qed

text \<open>
  C9, as the code has it. In a state the filter can reach, a \<open>check\<close> at time \<open>T\<close>
  answers \<open>spam_detected\<close> and so creates a ban, with a block duration of 300000 ms
  and a callback whose delay ends at \<open>T + 300000\<close>. After any later events, as long as
  none of them is the run of the sender's callback: the sender is still banned, every
  \<open>check\<close> for it is answered \<open>banned\<close> and changes nothing, that callback is
  pending and is the sender's only one, and an event clears the ban exactly when it
  runs that callback.
\<close>

theorem ban_lifetime:
  assumes "s = spam_run evs0 antispam_new"
      and "fst (check userId T s) = SpamDetected d"
      and "quiet userId evs (snd (check userId T s))"
      and "s' = spam_run evs (snd (check userId T s))"
  shows "limits_blockDuration = 300000 \<and>
         userId \<in> banned s' \<and>
         check userId now s' = (Banned limits_blockDuration, s') \<and>
         (T + limits_blockDuration, userId) \<in> set (unbans s') \<and>
         length (filter (\<lambda>p. snd p = userId) (unbans s')) = 1 \<and>
         (\<forall>e. userId \<notin> banned (spam_step e s') \<longleftrightarrow>
              (\<exists>k t. e = UnbanFired k t \<and> k < length (unbans s') \<and>
                     unbans s' ! k = (T + limits_blockDuration, userId)))"
proof -
  have ok: "timers_ok s" using assms(1) by (simp add: timers_ok_run timers_ok_new)
  then have "held userId (T + limits_blockDuration) (snd (check userId T s))"
    using assms(2) by (rule held_after_ban)
  then have h: "held userId (T + limits_blockDuration) s'"
    using assms(3,4) by (simp add: held_run)
  then have b: "userId \<in> banned s'" and t: "(T + limits_blockDuration, userId) \<in> set (unbans s')"
    by (simp_all add: held_def)
  have "timers_ok s'"
    using ok assms(4) timers_ok_check [of s userId T] by (simp add: timers_ok_run)
  then have one: "length (filter (\<lambda>p. snd p = userId) (unbans s')) = 1"
    using t by (intro one_callback [where d = "T + limits_blockDuration"]) (simp_all add: timers_ok_def)
  have own: "runs_callback_of userId e s' \<longleftrightarrow>
              (\<exists>k t. e = UnbanFired k t \<and> k < length (unbans s') \<and>
                     unbans s' ! k = (T + limits_blockDuration, userId))" for e
  proof (cases e)
    case (Check v t)
    then show ?thesis by simp
  next
    case (UnbanFired k t)
    have "k < length (unbans s') \<Longrightarrow> snd (unbans s' ! k) = userId \<Longrightarrow>
          unbans s' ! k = (T + limits_blockDuration, userId)"
    proof -
      assume k: "k < length (unbans s')" and u: "snd (unbans s' ! k) = userId"
      obtain d v where x: "unbans s' ! k = (d, v)" by (cases "unbans s' ! k")
      have "(d, v) \<in> set (unbans s')" using k x by (metis nth_mem)
      then have "d = T + limits_blockDuration" using h u x by (simp add: held_def)
      then show ?thesis using x u by simp
    qed
    then show ?thesis using UnbanFired by auto
  qed
  have clr: "\<forall>e. userId \<notin> banned (spam_step e s') \<longleftrightarrow>
              (\<exists>k t. e = UnbanFired k t \<and> k < length (unbans s') \<and>
                     unbans s' ! k = (T + limits_blockDuration, userId))"
    using cleared_iff [OF b] own by simp
  show ?thesis
    using b t one clr check_banned [OF b] by (simp add: limits_blockDuration_def)
qed

theorem ban_lifetime_witness:
  "fst (check ''u'' 10 (spam_run (map (Check ''u'') [0, 1, 2, 3, 4, 5, 6, 7, 8, 9]) antispam_new)) =
     SpamDetected 300000 \<and>
   ''u'' \<in> banned (spam_run [Check ''u'' 20, Check ''v'' 30, Check ''u'' 400000]
      (snd (check ''u'' 10
         (spam_run (map (Check ''u'') [0, 1, 2, 3, 4, 5, 6, 7, 8, 9]) antispam_new)))) \<and>
   fst (check ''u'' 500000 (spam_run [Check ''u'' 20, Check ''v'' 30, Check ''u'' 400000]
      (snd (check ''u'' 10
         (spam_run (map (Check ''u'') [0, 1, 2, 3, 4, 5, 6, 7, 8, 9]) antispam_new))))) =
     Banned 300000 \<and>
   ''u'' \<notin> banned (spam_step (UnbanFired 0 500000)
      (spam_run [Check ''u'' 20, Check ''v'' 30, Check ''u'' 400000]
        (snd (check ''u'' 10
           (spam_run (map (Check ''u'') [0, 1, 2, 3, 4, 5, 6, 7, 8, 9]) antispam_new)))))"
  using ban_lifetime [where s = "spam_run (map (Check ''u'') [0, 1, 2, 3, 4, 5, 6, 7, 8, 9]) antispam_new"
      and ?evs0.0 = "map (Check ''u'') [0, 1, 2, 3, 4, 5, 6, 7, 8, 9]"
      and userId = "''u''" and T = 10 and d = 300000
      and evs = "[Check ''u'' 20, Check ''v'' 30, Check ''u'' 400000]"
      and s' = "spam_run [Check ''u'' 20, Check ''v'' 30, Check ''u'' 400000]
        (snd (check ''u'' 10
           (spam_run (map (Check ''u'') [0, 1, 2, 3, 4, 5, 6, 7, 8, 9]) antispam_new)))"
      and now = 500000]
  by (simp add: spam_run_def check_def ban_def unban_fired_def getRemainingBlock_def
      antispam_new_def limits_blockDuration_def limits_messages_def limits_window_def Let_def)

text \<open>
  The ban is not kept until \<open>T + 300000\<close> by the code: the callback deletes the sender
  whenever it runs. A ban is created at time 10; the callback, run when \<open>Date.now()\<close>
  reads 300009, one millisecond before \<open>T + 300000\<close>, clears it, and a \<open>check\<close> at
  that time admits the sender's event.
\<close>

theorem ban_lifetime_counterexample:
  "fst (check ''u'' 10 (spam_run (map (Check ''u'') [0, 1, 2, 3, 4, 5, 6, 7, 8, 9]) antispam_new)) =
     SpamDetected 300000 \<and>
   spam_time (UnbanFired 0 300009) < 10 + limits_blockDuration \<and>
   ''u'' \<notin> banned (spam_step (UnbanFired 0 300009)
      (snd (check ''u'' 10
         (spam_run (map (Check ''u'') [0, 1, 2, 3, 4, 5, 6, 7, 8, 9]) antispam_new)))) \<and>
   fst (check ''u'' 300009 (spam_step (UnbanFired 0 300009)
      (snd (check ''u'' 10
         (spam_run (map (Check ''u'') [0, 1, 2, 3, 4, 5, 6, 7, 8, 9]) antispam_new))))) =
     Allowed"
  by (simp add: spam_run_def check_def ban_def unban_fired_def getRemainingBlock_def
      antispam_new_def limits_blockDuration_def limits_messages_def limits_window_def Let_def)

text \<open>
  C10. For a sender in the banned set, \<open>check\<close> answers \<open>banned\<close> with the whole
  block duration of 300000 ms at any time and leaves the state as it is, because
  \<open>getRemainingBlock\<close> is that constant: the test that would clear the ban in
  \<open>check\<close> never succeeds, no \<open>check\<close> for any sender removes a ban, and the events
  that remove this sender's ban are exactly the runs of a pending callback of its own.
\<close>

theorem banned_check_constant:
  assumes "userId \<in> banned s"
  shows "check userId now s = (Banned limits_blockDuration, s) \<and>
         limits_blockDuration = 300000 \<and>
         getRemainingBlock s userId = limits_blockDuration \<and>
         \<not> (userId \<in> banned s \<and> getRemainingBlock s userId \<le> 0) \<and>
         (\<forall>v t. banned s \<subseteq> banned (snd (check v t s))) \<and>
         (\<forall>e. userId \<notin> banned (spam_step e s) \<longleftrightarrow>
               (\<exists>k t. e = UnbanFired k t \<and> k < length (unbans s) \<and>
                      snd (unbans s ! k) = userId))"
proof -
  have removed: "\<forall>e. userId \<notin> banned (spam_step e s) \<longleftrightarrow>
               (\<exists>k t. e = UnbanFired k t \<and> k < length (unbans s) \<and>
                      snd (unbans s ! k) = userId)"
  proof
    fix e
    have "runs_callback_of userId e s \<longleftrightarrow>
            (\<exists>k t. e = UnbanFired k t \<and> k < length (unbans s) \<and> snd (unbans s ! k) = userId)"
      by (cases e) auto
    then show "userId \<notin> banned (spam_step e s) \<longleftrightarrow>
               (\<exists>k t. e = UnbanFired k t \<and> k < length (unbans s) \<and>
                      snd (unbans s ! k) = userId)"
      using cleared_iff [OF assms, of e] by simp
  qed
  show ?thesis
    using check_banned [OF assms] check_keeps_bans removed
    by (simp add: getRemainingBlock_def limits_blockDuration_def)
qed

theorem banned_check_constant_witness:
  "''u'' \<in> banned (spam_run (map (Check ''u'') [0, 1, 2, 3, 4, 5, 6, 7, 8, 9, 10]) antispam_new) \<and>
   fst (check ''u'' 86400000
     (spam_run (map (Check ''u'') [0, 1, 2, 3, 4, 5, 6, 7, 8, 9, 10]) antispam_new)) =
     Banned 300000"
  using banned_check_constant
    [of "''u''" "spam_run (map (Check ''u'') [0, 1, 2, 3, 4, 5, 6, 7, 8, 9, 10]) antispam_new"
      86400000]
  by (simp add: spam_run_def check_def ban_def getRemainingBlock_def
      antispam_new_def limits_blockDuration_def limits_messages_def limits_window_def Let_def)

section \<open>Properties of the one-time codes\<close>

lemma verifyOTP_not_found:
  "otps (digits phone) = None \<Longrightarrow>
   verifyOTP phone c now otps = (Invalid ''OTP tidak ditemukan'', otps)"
  by (simp add: verifyOTP_def)

lemma verifyOTP_expired:
  "otps (digits phone) = Some data \<Longrightarrow> expires data < now \<Longrightarrow>
   verifyOTP phone c now otps = (Invalid ''OTP expired'', otps)"
  by (simp add: verifyOTP_def)

lemma verifyOTP_mismatch:
  "otps (digits phone) = Some data \<Longrightarrow> \<not> expires data < now \<Longrightarrow> code data \<noteq> c \<Longrightarrow>
   verifyOTP phone c now otps =
     (Invalid ''Kode salah'',
      otps(digits phone \<mapsto> data\<lparr>otp_attempts := otp_attempts data + 1\<rparr>))"
  by (simp add: verifyOTP_def)

lemma verifyOTP_valid:
  "fst (verifyOTP phone c now otps) = Valid \<longleftrightarrow>
     (\<exists>data. otps (digits phone) = Some data \<and> \<not> expires data < now \<and> code data = c)"
  by (auto simp: verifyOTP_def split: option.splits)

lemma verifyOTP_valid_store:
  "fst (verifyOTP phone c now otps) = Valid \<Longrightarrow>
   snd (verifyOTP phone c now otps) = otps(phone := None)"
  by (auto simp: verifyOTP_def split: option.splits if_splits)

lemma verifyOTP_single_use_digits:
  assumes "digits phone = phone" and "fst (verifyOTP phone c now otps) = Valid"
  shows "fst (verifyOTP phone c' now' (snd (verifyOTP phone c now otps))) =
           Invalid ''OTP tidak ditemukan''"
  using assms by (simp add: verifyOTP_valid_store verifyOTP_not_found)

lemma handler_not_found:
  "b_adminCode b \<noteq> Some ADMIN_SECRET \<Longrightarrow> otp_kv s (target_key b) = None \<Longrightarrow>
   handler b now sid uid s = (Status400 ''OTP not found or expired'', s)"
  by (simp add: handler_def)

lemma handler_expired:
  "b_adminCode b \<noteq> Some ADMIN_SECRET \<Longrightarrow> otp_kv s (target_key b) = Some data \<Longrightarrow>
   expires data < now \<Longrightarrow>
   handler b now sid uid s =
     (Status400 ''OTP expired'', s\<lparr>otp_kv := (otp_kv s)(target_key b := None)\<rparr>)"
  by (simp add: handler_def)

lemma handler_mismatch:
  "b_adminCode b \<noteq> Some ADMIN_SECRET \<Longrightarrow> otp_kv s (target_key b) = Some data \<Longrightarrow>
   \<not> expires data < now \<Longrightarrow> code data \<noteq> b_code b \<Longrightarrow>
   handler b now sid uid s =
     (Status400 ''Invalid code'',
      s\<lparr>otp_kv := (otp_kv s)(target_key b \<mapsto> data\<lparr>otp_attempts := otp_attempts data + 1\<rparr>)\<rparr>)"
  by (simp add: handler_def)

text \<open>
  The handler of \<open>verify.js\<close> is single-use, and so is \<open>verifyOTP\<close> for a phone
  number made of digits only (\<open>verifyOTP_single_use_digits\<close>).
\<close>

lemma handler_verified_deletes:
  assumes "b_adminCode b \<noteq> Some ADMIN_SECRET"
      and "fst (handler b now sid uid s) = UserOk sid' acct"
  shows "otp_kv (snd (handler b now sid uid s)) (target_key b) = None"
  using assms
  by (auto simp: handler_def target_key_def Let_def split: option.splits if_splits)

lemma handler_single_use:
  assumes "b_adminCode b \<noteq> Some ADMIN_SECRET"
      and "fst (handler b now sid uid s) = UserOk sid' acct"
      and "b_adminCode b' \<noteq> Some ADMIN_SECRET" and "target_key b' = target_key b"
  shows "fst (handler b' now' sid2 uid2 (snd (handler b now sid uid s))) =
           Status400 ''OTP not found or expired''"
proof -
  have "otp_kv (snd (handler b now sid uid s)) (target_key b') = None"
    using handler_verified_deletes [OF assms(1,2)] assms(4) by simp
  then show ?thesis using assms(3) by (simp add: handler_not_found)
qed

text \<open>
  C6 on \<open>botAPI.verifyOTP\<close>: a code is stored at time 0 and expires at 300000; a
  check at 400000 answers "OTP expired" and leaves the file as it was, the record
  still in it. The serverless handler, on the same record, deletes it.
\<close>

theorem verifyOTP_expired_record_kept:
  "verifyOTP ''6281234567890'' ''123456'' 400000
     (cmdSendOTP_store ''6281234567890'' ''123456'' 0 Map.empty) =
     (Invalid ''OTP expired'', cmdSendOTP_store ''6281234567890'' ''123456'' 0 Map.empty) \<and>
   snd (verifyOTP ''6281234567890'' ''123456'' 400000
     (cmdSendOTP_store ''6281234567890'' ''123456'' 0 Map.empty)) ''6281234567890'' =
     Some \<lparr>code = ''123456'', expires = 300000, otp_attempts = 0\<rparr> \<and>
   otp_kv (snd (handler \<lparr>b_phone = Some ''6281234567890'', b_email = None, b_code = ''123456'',
                        b_adminCode = None\<rparr> 400000 ''sid'' ''uid''
      \<lparr>otp_kv = [''6281234567890'' \<mapsto> \<lparr>code = ''123456'', expires = 300000, otp_attempts = 0\<rparr>],
       session_kv = Map.empty, user_kv = Map.empty\<rparr>)) ''6281234567890'' = None"
  by (simp add: verifyOTP_def cmdSendOTP_store_def digits_def handler_def target_key_def
      js_or_def key_of_def ADMIN_SECRET_def)

text \<open>
  C7 on \<open>botAPI.verifyOTP\<close>: the record is looked up under the digits of the phone
  number and deleted under the number as given. With \<open>+6281234567890\<close> the first
  check succeeds, the record stays, and a second check with the same code succeeds
  again.
\<close>

theorem verifyOTP_code_reusable:
  "fst (verifyOTP ''+6281234567890'' ''123456'' 1000
     (cmdSendOTP_store ''+6281234567890'' ''123456'' 0 Map.empty)) = Valid \<and>
   snd (verifyOTP ''+6281234567890'' ''123456'' 1000
     (cmdSendOTP_store ''+6281234567890'' ''123456'' 0 Map.empty)) ''6281234567890'' =
     Some \<lparr>code = ''123456'', expires = 300000, otp_attempts = 0\<rparr> \<and>
   fst (verifyOTP ''+6281234567890'' ''123456'' 2000
     (snd (verifyOTP ''+6281234567890'' ''123456'' 1000
        (cmdSendOTP_store ''+6281234567890'' ''123456'' 0 Map.empty)))) = Valid"
  by (simp add: verifyOTP_def cmdSendOTP_store_def digits_def)

section \<open>Properties of the delivery queue\<close>

subsection \<open>What each piece of code does to the state\<close>

lemma save_simps [simp]:
  "save True s = Returned (s\<lparr>saved := queue s\<rparr>)"
  "save False s = Threw s"
  by (simp_all add: save_def)

lemma process_start_fields [simp]:
  "queue (process_start s) = queue s"
  "saved (process_start s) = saved s"
  "isBotReady (process_start s) = isBotReady s"
  "timers (process_start s) = timers s"
  "notifying (process_start s) = notifying s"
  "nextseq (process_start s) = nextseq s"
  "delivered (process_start s) = delivered s"
  "dropped (process_start s) = dropped s"
  by (simp_all add: process_start_def)

lemma process_start_idem: "process_start (process_start s) = process_start s"
  by (simp add: process_start_def)


lemma process_finish_fields [simp]:
  "queue (process_finish s) = queue s"
  "saved (process_finish s) = saved s"
  "isBotReady (process_finish s) = isBotReady s"
  "notifying (process_finish s) = notifying s"
  "nextseq (process_finish s) = nextseq s"
  "sends (process_finish s) = sends s"
  "delivered (process_finish s) = delivered s"
  "dropped (process_finish s) = dropped s"
  "drain (process_finish s) = Idle"
  "processing (process_finish s) = False"
  "timers (process_finish s) = (if queue s \<noteq> [] then Suc (timers s) else timers s)"
  by (simp_all add: process_finish_def Let_def)

lemma queue_push_fields [simp]:
  "queue (queue_push message uuid now s) = queue s @
     [\<lparr>seq = nextseq s, msg_id = uuid, to = o_to message, type = o_type message,
       content = o_content message, addedAt = now, attempts = 0\<rparr>]"
  "nextseq (queue_push message uuid now s) = Suc (nextseq s)"
  "saved (queue_push message uuid now s) = saved s"
  "isBotReady (queue_push message uuid now s) = isBotReady s"
  "processing (queue_push message uuid now s) = processing s"
  "drain (queue_push message uuid now s) = drain s"
  "timers (queue_push message uuid now s) = timers s"
  "notifying (queue_push message uuid now s) = notifying s"
  "sends (queue_push message uuid now s) = sends s"
  "delivered (queue_push message uuid now s) = delivered s"
  "dropped (queue_push message uuid now s) = dropped s"
  by (simp_all add: queue_push_def)

lemma add_state:
  "state_of (add message uuid now w s) =
     (if w then process_start ((queue_push message uuid now s)
                                 \<lparr>saved := queue (queue_push message uuid now s)\<rparr>)
      else queue_push message uuid now s)"
  by (simp add: add_def save_def)

lemma add_returned:
  "add message uuid now w s =
     (if w then Returned (state_of (add message uuid now w s))
      else Threw (state_of (add message uuid now w s)))"
  by (simp add: add_def save_def)

lemma queue_add:
  "queue (state_of (add message uuid now w s)) = queue s @
     [\<lparr>seq = nextseq s, msg_id = uuid, to = o_to message, type = o_type message,
       content = o_content message, addedAt = now, attempts = 0\<rparr>]"
  by (simp add: add_state)

lemma seq_write_back: "map seq (write_back m q) = map seq q"
  by (induction q) (simp_all add: write_back_def)

lemma write_back_head:
  assumes "sorted_wrt (<) (map seq (m # rest))" and "seq m' = seq m"
  shows "write_back m' (m # rest) = m' # rest"
proof -
  have "\<forall>x \<in> set rest. seq x \<noteq> seq m'" using assms by auto
  then have "map (\<lambda>x. if seq x = seq m' then m' else x) rest = rest"
    by (induction rest) simp_all
  then show ?thesis using assms(2) by (simp add: write_back_def)
qed

lemma write_back_gone:
  assumes "sorted_wrt (<) (map seq (m # rest))" and "seq m' = seq m"
  shows "write_back m' rest = rest"
proof -
  have "\<forall>x \<in> set rest. seq x \<noteq> seq m'" using assms by auto
  then have "map (\<lambda>x. if seq x = seq m' then m' else x) rest = rest"
    by (induction rest) simp_all
  then show ?thesis by (simp add: write_back_def)
qed

text \<open>
  The \<open>catch\<close> block, field by field: \<open>q\<close> is the queue after the write through
  \<open>msg\<close>.
\<close>

lemma catch_block_fields:
  assumes "write_back (msg\<lparr>attempts := attempts msg + 1\<rparr>) (queue s) = q"
  shows "queue (state_of (catch_block msg w s)) = (if 3 \<le> attempts msg + 1 then tl q else q)"
    and "dropped (state_of (catch_block msg w s)) =
           (if 3 \<le> attempts msg + 1 then dropped s @ [msg\<lparr>attempts := attempts msg + 1\<rparr>]
            else dropped s)"
    and "saved (state_of (catch_block msg w s)) =
           (if w then (if 3 \<le> attempts msg + 1 then tl q else q) else saved s)"
    and "drain (state_of (catch_block msg w s)) = (if w then AwaitDelay else Idle)"
    and "processing (state_of (catch_block msg w s)) = processing s"
    and "timers (state_of (catch_block msg w s)) = timers s"
    and "delivered (state_of (catch_block msg w s)) = delivered s"
    and "sends (state_of (catch_block msg w s)) = sends s"
    and "nextseq (state_of (catch_block msg w s)) = nextseq s"
    and "isBotReady (state_of (catch_block msg w s)) = isBotReady s"
    and "notifying (state_of (catch_block msg w s)) = notifying s"
  using assms by (simp_all add: catch_block_def save_def Let_def)

text \<open>
  The settling of a send, field by field, for a queue \<open>m # rest\<close> in submission
  order whose head is the message in flight.
\<close>

lemma send_settled_fields:
  assumes "drain s = AwaitSend m" and "queue s = m # rest"
      and "sorted_wrt (<) (map seq (queue s))"
  shows "queue (send_settled ok w1 w2 s) =
           (if ok then (if w1 then rest else if 3 \<le> attempts m + 1 then tl rest else rest)
            else if 3 \<le> attempts m + 1 then rest
            else m\<lparr>attempts := attempts m + 1\<rparr> # rest)"
    and "delivered (send_settled ok w1 w2 s) =
           (if ok \<and> w1 then delivered s @ [m] else delivered s)"
    and "dropped (send_settled ok w1 w2 s) =
           (if (ok \<longrightarrow> \<not> w1) \<and> 3 \<le> attempts m + 1
            then dropped s @ [m\<lparr>attempts := attempts m + 1\<rparr>] else dropped s)"
    and "drain (send_settled ok w1 w2 s) =
           (if ok \<and> w1 then Idle else if (if ok then w2 else w1) then AwaitDelay else Idle)"
    and "processing (send_settled ok w1 w2 s) = (if ok \<and> w1 then False else processing s)"
    and "timers (send_settled ok w1 w2 s) =
           (if ok \<and> w1 \<and> rest \<noteq> [] then Suc (timers s) else timers s)"
    and "saved (send_settled ok w1 w2 s) =
           (if (if ok then w1 \<or> w2 else w1) then queue (send_settled ok w1 w2 s) else saved s)"
proof -
  let ?m = "m\<lparr>attempts := attempts m + 1\<rparr>"
  have srt: "sorted_wrt (<) (map seq (m # rest))" using assms(2,3) by simp
  have h: "write_back ?m (queue s) = ?m # rest"
    using write_back_head [OF srt, of ?m] assms(2) by simp
  have g: "write_back ?m (queue (s\<lparr>queue := rest\<rparr>)) = rest"
    using write_back_gone [OF srt, of ?m] by simp
  note f1 = catch_block_fields [OF h]
  note f2 = catch_block_fields [OF g]
  show "queue (send_settled ok w1 w2 s) =
           (if ok then (if w1 then rest else if 3 \<le> attempts m + 1 then tl rest else rest)
            else if 3 \<le> attempts m + 1 then rest
            else m\<lparr>attempts := attempts m + 1\<rparr> # rest)"
    using assms(1,2) by (simp add: send_settled_def save_def f1(1) f2(1))
  show "delivered (send_settled ok w1 w2 s) =
           (if ok \<and> w1 then delivered s @ [m] else delivered s)"
    using assms(1,2) by (simp add: send_settled_def save_def f1(7) f2(7))
  show "dropped (send_settled ok w1 w2 s) =
           (if (ok \<longrightarrow> \<not> w1) \<and> 3 \<le> attempts m + 1
            then dropped s @ [m\<lparr>attempts := attempts m + 1\<rparr>] else dropped s)"
    using assms(1,2) by (simp add: send_settled_def save_def f1(2) f2(2))
  show "drain (send_settled ok w1 w2 s) =
           (if ok \<and> w1 then Idle else if (if ok then w2 else w1) then AwaitDelay else Idle)"
    using assms(1,2) by (simp add: send_settled_def save_def f1(4) f2(4))
  show "processing (send_settled ok w1 w2 s) = (if ok \<and> w1 then False else processing s)"
    using assms(1,2) by (simp add: send_settled_def save_def f1(5) f2(5))
  show "timers (send_settled ok w1 w2 s) =
           (if ok \<and> w1 \<and> rest \<noteq> [] then Suc (timers s) else timers s)"
    using assms(1,2) by (simp add: send_settled_def save_def f1(6) f2(6))
  show "saved (send_settled ok w1 w2 s) =
           (if (if ok then w1 \<or> w2 else w1) then queue (send_settled ok w1 w2 s) else saved s)"
    using assms(1,2) by (simp add: send_settled_def save_def f1(1,3) f2(1,3))
qed

lemma send_settled_same [simp]:
  "sends (send_settled ok w1 w2 s) = sends s"
  "nextseq (send_settled ok w1 w2 s) = nextseq s"
  "isBotReady (send_settled ok w1 w2 s) = isBotReady s"
  "notifying (send_settled ok w1 w2 s) = notifying s"
  by (cases "drain s"; simp add: send_settled_def catch_block_def save_def Let_def)+

lemma send_settled_idle:
  assumes "\<And>m. drain s \<noteq> AwaitSend m"
  shows "send_settled ok w1 w2 s = s"
proof (cases "drain s")
  case (AwaitSend m)
  then show ?thesis using assms by blast
qed (simp_all add: send_settled_def)

lemma delay_elapsed_fields [simp]:
  "queue (delay_elapsed s) = queue s"
  "saved (delay_elapsed s) = saved s"
  "isBotReady (delay_elapsed s) = isBotReady s"
  "notifying (delay_elapsed s) = notifying s"
  "nextseq (delay_elapsed s) = nextseq s"
  "sends (delay_elapsed s) = sends s"
  "delivered (delay_elapsed s) = delivered s"
  "dropped (delay_elapsed s) = dropped s"
  by (cases "drain s"; simp add: delay_elapsed_def)+

lemma timer_fired_fields [simp]:
  "queue (timer_fired s) = queue s"
  "saved (timer_fired s) = saved s"
  "isBotReady (timer_fired s) = isBotReady s"
  "notifying (timer_fired s) = notifying s"
  "nextseq (timer_fired s) = nextseq s"
  "delivered (timer_fired s) = delivered s"
  "dropped (timer_fired s) = dropped s"
  by (simp_all add: timer_fired_def)

lemma handleReconnect_fields [simp]:
  "queue (handleReconnect s) = queue s"
  "saved (handleReconnect s) = saved s"
  "isBotReady (handleReconnect s) = isBotReady s"
  "processing (handleReconnect s) = processing s"
  "drain (handleReconnect s) = drain s"
  "timers (handleReconnect s) = timers s"
  "notifying (handleReconnect s) = notifying s"
  "nextseq (handleReconnect s) = nextseq s"
  "sends (handleReconnect s) = sends s"
  "delivered (handleReconnect s) = delivered s"
  "dropped (handleReconnect s) = dropped s"
  by (simp_all add: handleReconnect_def Let_def)

lemma handleConnectionUpdate_fields [simp]:
  "queue (handleConnectionUpdate u a t w s) = queue s"
  "saved (handleConnectionUpdate u a t w s) = saved s"
  "timers (handleConnectionUpdate u a t w s) = timers s"
  "nextseq (handleConnectionUpdate u a t w s) = nextseq s"
  "delivered (handleConnectionUpdate u a t w s) = delivered s"
  "dropped (handleConnectionUpdate u a t w s) = dropped s"
  by (simp_all add: handleConnectionUpdate_def Let_def split: option.splits)

subsection \<open>Invariants of every reachable state\<close>

lemma seq_load: "map seq (load stored) = [0..<length stored]"
proof -
  have f: "(\<lambda>p. seq (case p of (i, m) \<Rightarrow> m\<lparr>seq := i\<rparr>)) = fst"
    by (auto simp: fun_eq_iff)
  have "map seq (load stored) = map fst (enumerate 0 stored)"
    by (simp only: load_def map_map comp_def f)
  also have "\<dots> = [0..<length stored]" by (simp add: map_fst_enumerate)
  finally show ?thesis .
qed

lemma attempts_load: "map attempts (load stored) = map attempts stored"
proof -
  have f: "(\<lambda>p. attempts (case p of (i, m) \<Rightarrow> m\<lparr>seq := i\<rparr>)) = (\<lambda>p. attempts (snd p))"
    by (auto simp: fun_eq_iff)
  have "map attempts (load stored) = map (\<lambda>p. attempts (snd p)) (enumerate 0 stored)"
    by (simp only: load_def map_map comp_def f)
  also have "\<dots> = map attempts (map snd (enumerate 0 stored))"
    by (simp only: map_map comp_def)
  also have "\<dots> = map attempts stored" by (simp only: map_snd_enumerate)
  finally show ?thesis .
qed

text \<open>Each invariant reads only some fields.\<close>

lemma inv_head_cong:
  "drain s' = drain s \<Longrightarrow> processing s' = processing s \<Longrightarrow> queue s' = queue s \<Longrightarrow>
   inv_head s' = inv_head s"
  by (simp add: inv_head_def)

lemma inv_order_cong:
  "map seq (queue s') = map seq (queue s) \<Longrightarrow> nextseq s' = nextseq s \<Longrightarrow>
   sends s' = sends s \<Longrightarrow> inv_order s' = inv_order s"
  by (simp add: inv_order_def)

lemma inv_attempts_cong:
  "queue s' = queue s \<Longrightarrow> delivered s' = delivered s \<Longrightarrow> dropped s' = dropped s \<Longrightarrow>
   inv_attempts s' = inv_attempts s"
  by (simp add: inv_attempts_def)

lemma inv_shape_cong:
  assumes "drain s' = drain s" and "processing s' = processing s" and "queue s' = queue s"
      and "nextseq s' = nextseq s" and "sends s' = sends s"
  shows "inv_shape s' = inv_shape s"
  using assms
  by (simp add: inv_shape_def inv_head_cong [of s' s] inv_order_cong [of s' s])

lemma inv_order_drop:
  assumes "inv_order s" and "map seq (queue s') = drop n (map seq (queue s))"
      and "nextseq s' = nextseq s" and "sends s' = sends s"
  shows "inv_order s'"
proof -
  have sub: "set (drop n (map seq (queue s))) \<subseteq> set (map seq (queue s))"
    by (rule set_drop_subset)
  have "sorted_wrt (<) (drop n (map seq (queue s)))"
    using assms(1) by (simp add: inv_order_def sorted_wrt_drop)
  then show ?thesis
    using assms sub unfolding inv_order_def by (simp only:) blast
qed

lemma inv_shape_process_start:
  assumes "inv_shape s"
  shows "inv_shape (process_start s)"
proof (cases "processing s \<or> queue s = [] \<or> \<not> isBotReady s")
  case True
  then show ?thesis using assms by (simp add: process_start_def)
next
  case False
  then obtain h t where q: "queue s = h # t" by (cases "queue s") auto
  have o: "inv_order s" using assms by (simp add: inv_shape_def)
  have "\<forall>n \<in> set (map seq (queue s)). seq h \<le> n"
    using o q by (auto simp: inv_order_def)
  moreover have "\<forall>a \<in> set (map seq (sends s)). a \<le> seq h"
    using o q by (simp add: inv_order_def)
  moreover have "seq h < nextseq s" using o q by (simp add: inv_order_def)
  ultimately have "inv_order (process_start s)"
    using o False q by (simp add: process_start_def inv_order_def sorted_append)
  moreover have "inv_head (process_start s)"
    using False by (simp add: process_start_def inv_head_def)
  ultimately show ?thesis by (simp add: inv_shape_def)
qed

lemma inv_shape_queue_push:
  assumes "inv_shape s"
  shows "inv_shape (queue_push message uuid now s)"
proof -
  have "inv_head (queue_push message uuid now s)"
    using assms by (auto simp: inv_shape_def inv_head_def)
  moreover have "inv_order (queue_push message uuid now s)"
    using assms
    by (auto simp: inv_shape_def inv_order_def sorted_wrt_append less_Suc_eq less_imp_le)
  ultimately show ?thesis by (simp add: inv_shape_def)
qed

lemma inv_shape_add:
  assumes "inv_shape s"
  shows "inv_shape (state_of (add message uuid now w s))"
proof (cases w)
  case True
  let ?p = "queue_push message uuid now s"
  have "inv_shape (?p\<lparr>saved := queue ?p\<rparr>) = inv_shape ?p"
    by (rule inv_shape_cong) simp_all
  then have "inv_shape (process_start (?p\<lparr>saved := queue ?p\<rparr>))"
    using inv_shape_queue_push [OF assms] by (intro inv_shape_process_start) simp
  then show ?thesis using True by (simp add: add_state)
next
  case False
  then show ?thesis using inv_shape_queue_push [OF assms] by (simp add: add_state)
qed

text \<open>With the invariants, the message in flight is the head of a queue in order.\<close>

lemma in_flight:
  assumes "inv_shape s" and "drain s = AwaitSend m"
  shows "\<exists>rest. queue s = m # rest" and "sorted_wrt (<) (map seq (queue s))"
    and "processing s"
proof -
  show "\<exists>rest. queue s = m # rest"
    using assms by (cases "queue s") (auto simp: inv_shape_def inv_head_def)
  show "sorted_wrt (<) (map seq (queue s))"
    using assms(1) by (simp add: inv_shape_def inv_order_def)
  show "processing s" using assms by (simp add: inv_shape_def inv_head_def)
qed

lemma inv_shape_send_settled:
  assumes "inv_shape s"
  shows "inv_shape (send_settled ok w1 w2 s)"
proof (cases "drain s")
  case (AwaitSend m)
  let ?s = "send_settled ok w1 w2 s"
  let ?m = "m\<lparr>attempts := attempts m + 1\<rparr>"
  from in_flight [OF assms AwaitSend] obtain rest
    where q: "queue s = m # rest" and srt: "sorted_wrt (<) (map seq (queue s))"
      and p: "processing s" by blast
  have o: "inv_order s" using assms by (simp add: inv_shape_def)
  note f = send_settled_fields [OF AwaitSend q srt, of ok w1 w2]
  have "inv_head ?s" using p by (simp add: inv_head_def f(4,5))
  moreover have "inv_order ?s"
  proof -
    have "\<exists>n. map seq (queue ?s) = drop n (map seq (queue s))"
    proof (cases "queue ?s = rest")
      case True
      then have "map seq (queue ?s) = drop 1 (map seq (queue s))" using q by simp
      then show ?thesis by blast
    next
      case nr: False
      show ?thesis
      proof (cases "queue ?s = tl rest")
        case True
        then have "map seq (queue ?s) = drop 2 (map seq (queue s))"
          using q by (simp add: map_tl drop_Suc numeral_2_eq_2)
        then show ?thesis by blast
      next
        case False
        then have "queue ?s = ?m # rest" using nr f(1) by (simp split: if_splits)
        then have "map seq (queue ?s) = drop 0 (map seq (queue s))" using q by simp
        then show ?thesis by blast
      qed
    qed
    then obtain n where "map seq (queue ?s) = drop n (map seq (queue s))" by blast
    then have "map seq (queue ?s) = drop n (map seq (queue s))" .
    from inv_order_drop [OF o this] show ?thesis by simp
  qed
  ultimately show ?thesis by (simp add: inv_shape_def)
qed (use assms in \<open>simp_all add: send_settled_def\<close>)

lemma inv_shape_process_finish:
  assumes "inv_shape s"
  shows "inv_shape (process_finish s)"
proof -
  have "inv_head (process_finish s)" by (simp add: inv_head_def)
  moreover have "inv_order (process_finish s)"
    using assms by (simp add: inv_shape_def inv_order_cong [of "process_finish s" s])
  ultimately show ?thesis by (simp add: inv_shape_def)
qed

lemma inv_shape_delay_elapsed: "inv_shape s \<Longrightarrow> inv_shape (delay_elapsed s)"
  by (cases "drain s") (simp_all add: delay_elapsed_def inv_shape_process_finish)

lemma inv_shape_timer_fired:
  assumes "inv_shape s"
  shows "inv_shape (timer_fired s)"
proof (cases "timers s = 0")
  case True
  then show ?thesis using assms by (simp add: timer_fired_def)
next
  case False
  have "inv_shape (s\<lparr>timers := timers s - 1\<rparr>) = inv_shape s"
    by (rule inv_shape_cong) simp_all
  then show ?thesis
    using False assms by (simp add: timer_fired_def inv_shape_process_start)
qed

lemma inv_shape_handleReconnect: "inv_shape (handleReconnect s) = inv_shape s"
  by (rule inv_shape_cong) simp_all

lemma inv_shape_handleConnectionUpdate:
  assumes "inv_shape s"
  shows "inv_shape (handleConnectionUpdate u a t w s)"
proof -
  let ?s1 = "if qr u then s\<lparr>reconnectAttempts := 0\<rparr> else s"
  have b1: "inv_shape ?s1"
    using assms inv_shape_cong [of "s\<lparr>reconnectAttempts := 0\<rparr>" s] by simp
  let ?s' = "?s1\<lparr>isBotReady := True, reconnectAttempts := 0\<rparr>"
  have b2: "inv_shape ?s'" using b1 inv_shape_cong [of ?s' ?s1] by simp
  show ?thesis
  proof (cases "connection u = Some ''open''")
    case True
    show ?thesis
    proof (cases "w")
      case False
      then show ?thesis using True b2 by (simp add: handleConnectionUpdate_def Let_def)
    next
      case w: True
      show ?thesis
      proof (cases a)
        case None
        then show ?thesis using True w inv_shape_process_start [OF b2]
          by (simp add: handleConnectionUpdate_def Let_def)
      next
        case (Some x)
        have "inv_shape (?s'\<lparr>notifying := notifying ?s' @ [(x, t)]\<rparr>) = inv_shape ?s'"
          by (rule inv_shape_cong) simp_all
        then show ?thesis using True w Some b2
          by (simp add: handleConnectionUpdate_def Let_def)
      qed
    qed
  next
    case False
    have "inv_shape (?s1\<lparr>isBotReady := False\<rparr>) = inv_shape ?s1"
      by (rule inv_shape_cong) simp_all
    then show ?thesis using False b1
      by (simp add: handleConnectionUpdate_def Let_def inv_shape_handleReconnect)
  qed
qed

text \<open>The resumed \<open>'open'\<close> handler, case by case.\<close>

lemma notify_settled_cases:
  assumes "k < length (notifying s)"
  shows "notify_settled k ok w1 w2 uuid now s =
        (if ok \<and> w1
         then process_start (s\<lparr>notifying := take k (notifying s) @ drop (Suc k) (notifying s)\<rparr>)
         else if w2
         then process_start (state_of (add
                \<lparr>o_to = fst (notifying s ! k), o_type = ''text'',
                  o_content = snd (notifying s ! k)\<rparr> uuid now w2
                (s\<lparr>notifying := take k (notifying s) @ drop (Suc k) (notifying s)\<rparr>)))
         else state_of (add
                \<lparr>o_to = fst (notifying s ! k), o_type = ''text'',
                  o_content = snd (notifying s ! k)\<rparr> uuid now w2
                (s\<lparr>notifying := take k (notifying s) @ drop (Suc k) (notifying s)\<rparr>)))"
  using assms by (simp add: notify_settled_def Let_def case_prod_beta add_def)

lemma inv_shape_notify_settled:
  assumes "inv_shape s"
  shows "inv_shape (notify_settled k ok w1 w2 uuid now s)"
proof (cases "k < length (notifying s)")
  case False
  then show ?thesis using assms by (simp add: notify_settled_def)
next
  case True
  let ?s1 = "s\<lparr>notifying := take k (notifying s) @ drop (Suc k) (notifying s)\<rparr>"
  have b1: "inv_shape ?s1" using assms inv_shape_cong [of ?s1 s] by simp
  show ?thesis
    unfolding notify_settled_cases [OF True]
    using inv_shape_process_start [OF b1] inv_shape_add [OF b1]
    by (simp add: inv_shape_process_start)
qed

lemma inv_shape_step: "inv_shape s \<Longrightarrow> inv_shape (step e s)"
  by (cases e)
     (simp_all add: inv_shape_add inv_shape_send_settled inv_shape_delay_elapsed
        inv_shape_timer_fired inv_shape_handleConnectionUpdate inv_shape_notify_settled
        inv_shape_handleReconnect)

lemma inv_shape_boot: "inv_shape (boot stored)"
  by (simp add: inv_shape_def inv_head_def inv_order_def boot_def seq_load)

lemma inv_shape_run: "inv_shape (run evs (boot stored))"
proof -
  have "inv_shape s \<Longrightarrow> inv_shape (run evs s)" for s
    unfolding run_def by (induction evs arbitrary: s) (simp_all add: inv_shape_step)
  then show ?thesis by (simp add: inv_shape_boot)
qed

text \<open>The counters.\<close>

lemma inv_attempts_process_start [simp]: "inv_attempts (process_start s) = inv_attempts s"
  by (rule inv_attempts_cong) simp_all

lemma inv_attempts_process_finish [simp]: "inv_attempts (process_finish s) = inv_attempts s"
  by (rule inv_attempts_cong) simp_all

lemma inv_attempts_add:
  assumes "inv_attempts s"
  shows "inv_attempts (state_of (add message uuid now w s))"
proof -
  have "inv_attempts (queue_push message uuid now s)"
    using assms by (simp add: inv_attempts_def)
  moreover have "inv_attempts ((queue_push message uuid now s)
                   \<lparr>saved := queue (queue_push message uuid now s)\<rparr>) =
                 inv_attempts (queue_push message uuid now s)"
    by (rule inv_attempts_cong) simp_all
  ultimately show ?thesis by (simp add: add_state)
qed

lemma inv_attempts_send_settled:
  assumes "inv_shape s" and "inv_attempts s"
  shows "inv_attempts (send_settled ok w1 w2 s)"
proof (cases "drain s")
  case (AwaitSend m)
  let ?s = "send_settled ok w1 w2 s"
  from in_flight [OF assms(1) AwaitSend] obtain rest
    where q: "queue s = m # rest" and srt: "sorted_wrt (<) (map seq (queue s))" by blast
  note f = send_settled_fields [OF AwaitSend q srt, of ok w1 w2]
  have m: "0 \<le> attempts m \<and> attempts m < 3" using assms(2) q by (simp add: inv_attempts_def)
  have "set (tl rest) \<subseteq> set rest" by (cases rest) auto
  then have "\<forall>x \<in> set (queue ?s). 0 \<le> attempts x \<and> attempts x < 3"
    using assms(2) q m unfolding f(1) by (auto simp: inv_attempts_def)
  moreover have "\<forall>x \<in> set (delivered ?s). 0 \<le> attempts x \<and> attempts x < 3"
    using assms(2) m unfolding f(2) by (auto simp: inv_attempts_def)
  moreover have "\<forall>x \<in> set (dropped ?s). attempts x = 3"
    using assms(2) m unfolding f(3) by (auto simp: inv_attempts_def)
  ultimately show ?thesis by (simp add: inv_attempts_def)
qed (use assms in \<open>simp_all add: send_settled_def\<close>)

lemma inv_attempts_step:
  assumes "inv_shape s" and "inv_attempts s"
  shows "inv_attempts (step e s)"
proof (cases e)
  case (Enqueue message uuid now w)
  then show ?thesis using assms(2) by (simp add: inv_attempts_add)
next
  case (SendSettled ok w1 w2)
  then show ?thesis using assms by (simp add: inv_attempts_send_settled)
next
  case DelayElapsed
  then show ?thesis
    using assms(2) inv_attempts_cong [of "delay_elapsed s" s] by simp
next
  case TimerFired
  then show ?thesis
    using assms(2) inv_attempts_cong [of "timer_fired s" s] by simp
next
  case (ConnectionUpdate u a t w)
  then show ?thesis
    using assms(2) inv_attempts_cong [of "handleConnectionUpdate u a t w s" s] by simp
next
  case (NotifySettled k ok w1 w2 uuid now)
  show ?thesis
  proof (cases "k < length (notifying s)")
    case False
    then show ?thesis using assms(2) NotifySettled by (simp add: notify_settled_def)
  next
    case True
    let ?s1 = "s\<lparr>notifying := take k (notifying s) @ drop (Suc k) (notifying s)\<rparr>"
    have "inv_attempts ?s1" using assms(2) inv_attempts_cong [of ?s1 s] by simp
    then show ?thesis
      using NotifySettled inv_attempts_add [of ?s1]
      by (simp add: notify_settled_cases [OF True])
  qed
next
  case StartBotFailed
  then show ?thesis
    using assms(2) inv_attempts_cong [of "handleReconnect s" s] by simp
qed

lemma inv_base_step: "inv_base s \<Longrightarrow> inv_base (step e s)"
  by (simp add: inv_base_def inv_shape_step inv_attempts_step)

lemma inv_base_boot:
  assumes "\<forall>m \<in> set stored. 0 \<le> attempts m \<and> attempts m < 3"
  shows "inv_base (boot stored)"
proof -
  have "\<forall>a \<in> set (map attempts (load stored)). 0 \<le> a \<and> a < 3"
    using assms by (simp add: attempts_load)
  then have "inv_attempts (boot stored)" by (simp add: inv_attempts_def boot_def)
  then show ?thesis by (simp add: inv_base_def inv_shape_boot)
qed

lemma inv_base_run: "inv_base s \<Longrightarrow> inv_base (run evs s)"
  unfolding run_def by (induction evs arbitrary: s) (simp_all add: inv_base_step)

subsection \<open>Which message a send is for\<close>

lemma sends_process_start:
  "sends (process_start s) = sends s \<or>
   isBotReady s \<and> queue s \<noteq> [] \<and> sends (process_start s) = sends s @ [hd (queue s)]"
  by (simp add: process_start_def)

lemma starts_process_start:
  assumes "sends x = sends s"
  shows "starts s (process_start x)"
  using sends_process_start [of x] assms by (auto simp: starts_def)

lemma starts_add: "starts s (state_of (add message uuid now w s))"
proof (cases w)
  case True
  have "starts s (process_start ((queue_push message uuid now s)
          \<lparr>saved := queue (queue_push message uuid now s)\<rparr>))"
    by (rule starts_process_start) simp
  then show ?thesis using True by (simp add: add_state)
next
  case False
  then show ?thesis by (simp add: add_state starts_def)
qed

lemma starts_timer_fired: "starts s (timer_fired s)"
proof (cases "timers s = 0")
  case True
  then show ?thesis by (simp add: timer_fired_def starts_def)
next
  case False
  have "starts s (process_start (s\<lparr>timers := timers s - 1\<rparr>))"
    by (rule starts_process_start) simp
  then show ?thesis using False by (simp add: timer_fired_def)
qed

lemma starts_handleConnectionUpdate: "starts s (handleConnectionUpdate u a t w s)"
proof (cases "connection u = Some ''open'' \<and> w \<and> a = None")
  case True
  have "starts s (process_start ((if qr u then s\<lparr>reconnectAttempts := 0\<rparr> else s)
            \<lparr>isBotReady := True, reconnectAttempts := 0\<rparr>))"
    by (rule starts_process_start) simp
  then show ?thesis using True by (simp add: handleConnectionUpdate_def Let_def)
next
  case False
  then have "sends (handleConnectionUpdate u a t w s) = sends s"
    by (auto simp: handleConnectionUpdate_def Let_def split: option.splits)
  then show ?thesis by (simp add: starts_def)
qed

lemma starts_notify_settled: "starts s (notify_settled k ok w1 w2 uuid now s)"
proof (cases "k < length (notifying s)")
  case False
  then show ?thesis by (simp add: notify_settled_def starts_def)
next
  case True
  let ?s1 = "s\<lparr>notifying := take k (notifying s) @ drop (Suc k) (notifying s)\<rparr>"
  let ?m = "\<lparr>o_to = fst (notifying s ! k), o_type = ''text'', o_content = snd (notifying s ! k)\<rparr>"
  have a: "starts s (process_start ?s1)" by (rule starts_process_start) simp
  have "starts ?s1 (state_of (add ?m uuid now w2 ?s1))" by (rule starts_add)
  then have b: "starts s (state_of (add ?m uuid now w2 ?s1))" by (simp add: starts_def)
  have c: "w2 \<Longrightarrow> process_start (state_of (add ?m uuid now w2 ?s1)) =
                  state_of (add ?m uuid now w2 ?s1)"
    by (simp add: add_state process_start_idem)
  show ?thesis
    unfolding notify_settled_cases [OF True] using a b c by (cases w2) simp_all
qed

lemma starts_step: "starts s (step e s)"
proof (cases e)
  case (Enqueue message uuid now w)
  then show ?thesis by (simp add: starts_add)
next
  case (ConnectionUpdate u a t w)
  then show ?thesis by (simp add: starts_handleConnectionUpdate)
next
  case (NotifySettled k ok w1 w2 uuid now)
  then show ?thesis by (simp add: starts_notify_settled)
next
  case TimerFired
  then show ?thesis by (simp add: starts_timer_fired)
qed (simp_all add: starts_def)


text \<open>What a settled send does to the queue, in every state the bot reaches.\<close>

lemma queue_send_settled:
  assumes "inv_shape s"
  shows "queue (send_settled ok w1 w2 s) =
           (case drain s of
              AwaitSend m \<Rightarrow>
                if ok then (if w1 \<or> attempts m + 1 < 3 then tl (queue s) else tl (tl (queue s)))
                else if 3 \<le> attempts m + 1 then tl (queue s)
                else m\<lparr>attempts := attempts m + 1\<rparr> # tl (queue s)
            | _ \<Rightarrow> queue s)"
proof (cases "drain s")
  case (AwaitSend m)
  from in_flight [OF assms AwaitSend] obtain rest
    where q: "queue s = m # rest" and srt: "sorted_wrt (<) (map seq (queue s))" by blast
  show ?thesis
    using AwaitSend q by (simp add: send_settled_fields(1) [OF AwaitSend q srt])
qed (simp_all add: send_settled_def)

text \<open>
  C2. In every state the bot reaches: \<open>add\<close> appends the new message at the tail,
  whether or not its write succeeds; the queue is in submission order; an event starts
  no send or one send, which is for the head of the queue; the sends made so far are in
  submission order, a message being sent again only while it is the head; and a failed
  send that leaves the counter below 3 keeps the message at the head, in front of the
  same tail, whatever the file writes do.
\<close>

theorem attempts_in_submission_order:
  assumes "s = run evs (boot stored)"
  shows "queue (state_of (add message uuid now writable s)) = queue s @
           [\<lparr>seq = nextseq s, msg_id = uuid, to = o_to message, type = o_type message,
             content = o_content message, addedAt = now, attempts = 0\<rparr>] \<and>
         sorted_wrt (<) (map seq (queue s)) \<and>
         (\<forall>x \<in> set (queue s). seq x < nextseq s) \<and>
         (sends (step e s) = sends s \<or>
            queue (step e s) \<noteq> [] \<and> sends (step e s) = sends s @ [hd (queue (step e s))]) \<and>
         sorted (map seq (sends s)) \<and>
         (\<forall>m. drain s = AwaitSend m \<and> attempts m + 1 < 3 \<longrightarrow>
              queue (step (SendSettled False w1 w2) s) =
                m\<lparr>attempts := attempts m + 1\<rparr> # tl (queue s))"
proof -
  have sh: "inv_shape s" using assms by (simp add: inv_shape_run)
  then have o: "inv_order s" by (simp add: inv_shape_def)
  have a: "sorted_wrt (<) (map seq (queue s)) \<and> (\<forall>x \<in> set (queue s). seq x < nextseq s) \<and>
           sorted (map seq (sends s))"
    using o by (simp add: inv_order_def)
  have b: "sends (step e s) = sends s \<or>
            queue (step e s) \<noteq> [] \<and> sends (step e s) = sends s @ [hd (queue (step e s))]"
    using starts_step [of s e] by (auto simp: starts_def)
  have c: "\<forall>m. drain s = AwaitSend m \<and> attempts m + 1 < 3 \<longrightarrow>
              queue (step (SendSettled False w1 w2) s) =
                m\<lparr>attempts := attempts m + 1\<rparr> # tl (queue s)"
    using queue_send_settled [OF sh, of False w1 w2] by auto
  show ?thesis using a b c by (simp add: queue_add)
qed

subsection \<open>While the file writes succeed\<close>






















lemma quiescent_no_pending: "quiescent s \<Longrightarrow> \<not> pending e s"
  by (cases e) (simp_all add: quiescent_def)



subsection \<open>The work left\<close>


lemma work_process_start_idle:
  assumes "\<not> processing s" and "queue s \<noteq> []" and "isBotReady s" and "drain s = Idle"
  shows "work (process_start s) < work s"
  using assms by (simp add: process_start_def work_def)










subsection \<open>Nothing is lost\<close>




lemma step_other:
  assumes "\<not> (\<exists>ok w1 w2. e = SendSettled ok w1 w2)"
  shows "\<exists>extra. queue (step e s) = queue s @ extra \<and> delivered (step e s) = delivered s \<and>
           dropped (step e s) = dropped s"
proof (cases e)
  case (SendSettled ok w1 w2)
  then show ?thesis using assms by blast
next
  case (NotifySettled k ok w1 w2 uuid now)
  show ?thesis
  proof (cases "k < length (notifying s)")
    case True
    show ?thesis using NotifySettled
      by (simp add: notify_settled_cases [OF True] add_state)
  next
    case False
    then show ?thesis using NotifySettled by (simp add: notify_settled_def)
  qed
qed (simp_all add: add_state)

lemma message_of_failed [simp]: "message_of (m\<lparr>attempts := a\<rparr>) = message_of m"
  by (simp add: message_of_def)







subsection \<open>When a message leaves the queue\<close>

lemma longer_not_tail: "m # rest @ extra \<noteq> rest"
proof
  assume "m # rest @ extra = rest"
  then have "length (m # rest @ extra) = length rest" by simp
  then show False by simp
qed

text \<open>
  While the writes of an event succeed, a message leaves the queue only when its send
  succeeded or its counter reached 3: the bot starts
  with a queue file whose counters are between 0 and 2, and reaches a state whose queue
  is \<open>m # rest\<close>. The event leaves exactly \<open>rest\<close> if and only if it is the
  settling of the send in flight for \<open>m\<close> and either the send succeeded or the
  failure brings the counter of \<open>m\<close> to 3; after every other event \<open>m\<close> is
  still at the head, unchanged or with its counter incremented by the failed send,
  followed by \<open>rest\<close> and whatever was added. The counters of the queued, the
  delivered and the dropped messages are between 0 and 3, whatever the writes did.
\<close>

lemma head_leaves_queue:
  assumes "\<forall>x \<in> set stored. 0 \<le> attempts x \<and> attempts x < 3"
      and "s = run evs (boot stored)"
      and "queue s = m # rest"
      and "writes_ok e"
  shows "(queue (step e s) = rest \<longleftrightarrow>
            (\<exists>ok. e = SendSettled ok True True \<and> drain s = AwaitSend m \<and>
                  (ok \<or> 3 \<le> attempts m + 1))) \<and>
         (queue (step e s) \<noteq> rest \<longrightarrow>
            (\<exists>m' extra. queue (step e s) = m' # rest @ extra \<and>
               (m' = m \<or> e = SendSettled False True True \<and>
                           m' = m\<lparr>attempts := attempts m + 1\<rparr>))) \<and>
         (\<forall>x \<in> set (queue s) \<union> set (delivered s) \<union> set (dropped s).
             0 \<le> attempts x \<and> attempts x \<le> 3)"
proof -
  have b: "inv_base s" using assms(1,2) by (simp add: inv_base_run inv_base_boot)
  then have sh: "inv_shape s" and a: "inv_attempts s" by (simp_all add: inv_base_def)
  have bound: "\<forall>x \<in> set (queue s) \<union> set (delivered s) \<union> set (dropped s).
             0 \<le> attempts x \<and> attempts x \<le> 3"
    using a by (auto simp: inv_attempts_def)
  have head: "drain s = AwaitSend m' \<Longrightarrow> m' = m" for m'
    using sh assms(3) by (auto simp: inv_shape_def inv_head_def)
  show ?thesis
  proof (cases "\<exists>ok w1 w2. e = SendSettled ok w1 w2")
    case False
    then obtain extra where "queue (step e s) = queue s @ extra"
      using step_other [OF False, of s] by blast
    then have q: "queue (step e s) = m # rest @ extra" using assms(3) by simp
    then have "queue (step e s) \<noteq> rest" by (simp add: longer_not_tail)
    then show ?thesis using False q bound by auto
  next
    case True
    then obtain ok w1 w2 where e0: "e = SendSettled ok w1 w2" by blast
    then have "w1" and "w2" using assms(4) by simp_all
    then have e: "e = SendSettled ok True True" using e0 by simp
    note qs = queue_send_settled [OF sh, of ok True True]
    show ?thesis
    proof (cases "drain s = AwaitSend m")
      case False
      then have "queue (step e s) = m # rest @ []"
        using e assms(3) head qs by (cases "drain s") auto
      moreover from this have "queue (step e s) \<noteq> rest" by (simp only: longer_not_tail simp_thms)
      ultimately show ?thesis using False e bound by blast
    next
      case am: True
      show ?thesis
      proof (cases "ok \<or> 3 \<le> attempts m + 1")
        case True
        then have "queue (step e s) = rest"
          using e am assms(3) qs by auto
        then show ?thesis using True e am bound by auto
      next
        case False
        then have q: "queue (step e s) = m\<lparr>attempts := attempts m + 1\<rparr> # rest @ []"
          using e am assms(3) qs by auto
        moreover from this have "queue (step e s) \<noteq> rest"
          by (simp only: longer_not_tail simp_thms)
        moreover have "e = SendSettled False True True" using False e by simp
        ultimately show ?thesis using False am bound by blast
      qed
    qed
  qed
qed

lemmas ev_defs = run_def boot_def load_def add_def save_def queue_push_def process_start_def
  process_finish_def catch_block_def send_settled_def write_back_def delay_elapsed_def
  timer_fired_def handleConnectionUpdate_def notify_settled_def Let_def

text \<open>
  C1. The bot starts with an empty queue file and connects; messages a and b are added;
  the send for a fails twice. The third send for a is in flight: the queue holds a with
  counter 2, then b with counter 0, for which no send was made. The send resolves,
  \<open>shift()\<close> removes a, and the write of the queue file throws. The \<open>catch\<close>
  block of \<open>process()\<close> takes this for a failed send: it brings the counter of a
  to 3 and calls \<open>shift()\<close> again, which removes b. The queue is then empty: b has
  left it with no send made for it and its counter at 0, and a, which the transport
  accepted, is logged as failed after 3 attempts and not as sent.
\<close>

theorem failed_write_removes_unsent:
  "queue (run [ConnectionUpdate \<lparr>connection = Some ''open'', qr = False, loggedOut = False\<rparr>
                 None [] True,
               Enqueue \<lparr>o_to = ''628'', o_type = ''text'', o_content = ''a''\<rparr> ''id1'' 5 True,
               Enqueue \<lparr>o_to = ''629'', o_type = ''text'', o_content = ''b''\<rparr> ''id2'' 6 True,
               SendSettled False True True, DelayElapsed, TimerFired,
               SendSettled False True True, DelayElapsed, TimerFired] (boot [])) =
     [\<lparr>seq = 0, msg_id = ''id1'', to = ''628'', type = ''text'', content = ''a'',
       addedAt = 5, attempts = 2\<rparr>,
      \<lparr>seq = 1, msg_id = ''id2'', to = ''629'', type = ''text'', content = ''b'',
       addedAt = 6, attempts = 0\<rparr>] \<and>
   drain (run [ConnectionUpdate \<lparr>connection = Some ''open'', qr = False, loggedOut = False\<rparr>
                 None [] True,
               Enqueue \<lparr>o_to = ''628'', o_type = ''text'', o_content = ''a''\<rparr> ''id1'' 5 True,
               Enqueue \<lparr>o_to = ''629'', o_type = ''text'', o_content = ''b''\<rparr> ''id2'' 6 True,
               SendSettled False True True, DelayElapsed, TimerFired,
               SendSettled False True True, DelayElapsed, TimerFired] (boot [])) =
     AwaitSend \<lparr>seq = 0, msg_id = ''id1'', to = ''628'', type = ''text'', content = ''a'',
       addedAt = 5, attempts = 2\<rparr> \<and>
   queue (run [ConnectionUpdate \<lparr>connection = Some ''open'', qr = False, loggedOut = False\<rparr>
                 None [] True,
               Enqueue \<lparr>o_to = ''628'', o_type = ''text'', o_content = ''a''\<rparr> ''id1'' 5 True,
               Enqueue \<lparr>o_to = ''629'', o_type = ''text'', o_content = ''b''\<rparr> ''id2'' 6 True,
               SendSettled False True True, DelayElapsed, TimerFired,
               SendSettled False True True, DelayElapsed, TimerFired,
               SendSettled True False True] (boot [])) = [] \<and>
   map seq (sends (run [ConnectionUpdate \<lparr>connection = Some ''open'', qr = False, loggedOut = False\<rparr>
                 None [] True,
               Enqueue \<lparr>o_to = ''628'', o_type = ''text'', o_content = ''a''\<rparr> ''id1'' 5 True,
               Enqueue \<lparr>o_to = ''629'', o_type = ''text'', o_content = ''b''\<rparr> ''id2'' 6 True,
               SendSettled False True True, DelayElapsed, TimerFired,
               SendSettled False True True, DelayElapsed, TimerFired,
               SendSettled True False True] (boot []))) = [0, 0, 0] \<and>
   delivered (run [ConnectionUpdate \<lparr>connection = Some ''open'', qr = False, loggedOut = False\<rparr>
                 None [] True,
               Enqueue \<lparr>o_to = ''628'', o_type = ''text'', o_content = ''a''\<rparr> ''id1'' 5 True,
               Enqueue \<lparr>o_to = ''629'', o_type = ''text'', o_content = ''b''\<rparr> ''id2'' 6 True,
               SendSettled False True True, DelayElapsed, TimerFired,
               SendSettled False True True, DelayElapsed, TimerFired,
               SendSettled True False True] (boot [])) = [] \<and>
   dropped (run [ConnectionUpdate \<lparr>connection = Some ''open'', qr = False, loggedOut = False\<rparr>
                 None [] True,
               Enqueue \<lparr>o_to = ''628'', o_type = ''text'', o_content = ''a''\<rparr> ''id1'' 5 True,
               Enqueue \<lparr>o_to = ''629'', o_type = ''text'', o_content = ''b''\<rparr> ''id2'' 6 True,
               SendSettled False True True, DelayElapsed, TimerFired,
               SendSettled False True True, DelayElapsed, TimerFired,
               SendSettled True False True] (boot [])) =
     [\<lparr>seq = 0, msg_id = ''id1'', to = ''628'', type = ''text'', content = ''a'',
       addedAt = 5, attempts = 3\<rparr>]"
  by (simp add: ev_defs)

theorem attempts_in_submission_order_witness:
  "map seq (sends (run [ConnectionUpdate \<lparr>connection = Some ''open'', qr = False, loggedOut = False\<rparr>
                 None [] True,
               Enqueue \<lparr>o_to = ''628'', o_type = ''text'', o_content = ''a''\<rparr> ''id1'' 5 True,
               Enqueue \<lparr>o_to = ''629'', o_type = ''text'', o_content = ''b''\<rparr> ''id2'' 6 True,
               SendSettled False True True, DelayElapsed, TimerFired,
               SendSettled True True True, TimerFired] (boot []))) = [0, 0, 1] \<and>
   map seq (queue (run [ConnectionUpdate \<lparr>connection = Some ''open'', qr = False, loggedOut = False\<rparr>
                 None [] True,
               Enqueue \<lparr>o_to = ''628'', o_type = ''text'', o_content = ''a''\<rparr> ''id1'' 5 True,
               Enqueue \<lparr>o_to = ''629'', o_type = ''text'', o_content = ''b''\<rparr> ''id2'' 6 True,
               SendSettled False True True, DelayElapsed, TimerFired,
               SendSettled True True True, TimerFired] (boot []))) = [1] \<and>
   map seq (queue (step (SendSettled False True True)
      (run [ConnectionUpdate \<lparr>connection = Some ''open'', qr = False, loggedOut = False\<rparr>
                 None [] True,
               Enqueue \<lparr>o_to = ''628'', o_type = ''text'', o_content = ''a''\<rparr> ''id1'' 5 True,
               Enqueue \<lparr>o_to = ''629'', o_type = ''text'', o_content = ''b''\<rparr> ''id2'' 6 True,
               SendSettled False True True, DelayElapsed, TimerFired,
               SendSettled True True True, TimerFired] (boot [])))) = [1]"
  using attempts_in_submission_order [where stored = "[]"
      and evs = "[ConnectionUpdate \<lparr>connection = Some ''open'', qr = False, loggedOut = False\<rparr>
                 None [] True,
               Enqueue \<lparr>o_to = ''628'', o_type = ''text'', o_content = ''a''\<rparr> ''id1'' 5 True,
               Enqueue \<lparr>o_to = ''629'', o_type = ''text'', o_content = ''b''\<rparr> ''id2'' 6 True,
               SendSettled False True True, DelayElapsed, TimerFired,
               SendSettled True True True, TimerFired]"
      and s = "run [ConnectionUpdate \<lparr>connection = Some ''open'', qr = False, loggedOut = False\<rparr>
                 None [] True,
               Enqueue \<lparr>o_to = ''628'', o_type = ''text'', o_content = ''a''\<rparr> ''id1'' 5 True,
               Enqueue \<lparr>o_to = ''629'', o_type = ''text'', o_content = ''b''\<rparr> ''id2'' 6 True,
               SendSettled False True True, DelayElapsed, TimerFired,
               SendSettled True True True, TimerFired] (boot [])"
      and e = "SendSettled False True True"
      and message = "\<lparr>o_to = ''630'', o_type = ''text'', o_content = ''c''\<rparr>"
      and uuid = "''id3''" and now = 7 and writable = True and ?w1.0 = True and ?w2.0 = True]
  by (simp add: ev_defs)

subsection \<open>Draining after the connection opens\<close>





end
